theory Spec2Isabelle
  imports Main
begin

section \<open>Values, keys and scopes\<close>

text \<open>
  A service value is any JavaScript value. The only value the container treats specially
  is \<^verbatim>\<open>undefined\<close>: the singleton factory uses it as the mark of an empty cache
  (\<^verbatim>\<open>let instance: T | undefined\<close>). Every other value is an opaque reference.
  Anything can be thrown; the container itself only throws \<^verbatim>\<open>new Error(message)\<close>.
\<close>

datatype val = Undefined | Obj nat

datatype exn = Error string | Thrown val

text \<open>
  \<^verbatim>\<open>class ServiceKey { symbol = Symbol(name); constructor(readonly name) }\<close>.
  JavaScript compares objects by reference, so a key carries the identity of its object
  (\<open>key_ref\<close>) beside its two fields. \<^verbatim>\<open>a === b\<close> on keys is equality of \<open>key_ref\<close>;
  \<^verbatim>\<open>a.symbol === b.symbol\<close> is equality of \<open>symbol\<close>.
\<close>

record ServiceKey =
  key_ref :: nat
  name :: string
  symbol :: nat

record ServiceScope =
  scope_ref :: nat
  scope_name :: string
  scope_symbol :: nat

section \<open>Service factories\<close>

text \<open>
  The two static constructors of \<^verbatim>\<open>ServiceFactory\<close> return objects of one shape; the
  lifetime tag records which of the two built the object. \<open>Singleton c\<close> carries the
  location \<open>c\<close> of the closure variable \<^verbatim>\<open>instance\<close> that the call to
  \<^verbatim>\<open>singleton\<close> allocated. The user's functions run arbitrary code: they are
  transformers of a user state \<open>'u\<close> that may return a value or throw.
\<close>

datatype lifetime = Singleton nat | OneShot

record 'u ServiceFactory =
  provides :: ServiceKey
  dependsOn :: "ServiceKey list"
  scope :: "ServiceScope option"
  lifetime :: lifetime
  user_initialize :: "val list \<Rightarrow> 'u \<Rightarrow> (exn + val) \<times> 'u"
  user_dispose :: "val \<Rightarrow> 'u \<Rightarrow> exn option \<times> 'u"

text \<open>
  \<^verbatim>\<open>singleton({scope, provides, dependsOn = [], initialize, dispose = () => {}})\<close>;
  the first argument is the fresh location of \<^verbatim>\<open>instance\<close>.
\<close>

definition singleton ::
  "nat \<Rightarrow> ServiceScope option \<Rightarrow> ServiceKey \<Rightarrow> ServiceKey list option \<Rightarrow>
   (val list \<Rightarrow> 'u \<Rightarrow> (exn + val) \<times> 'u) \<Rightarrow> (val \<Rightarrow> 'u \<Rightarrow> exn option \<times> 'u) option \<Rightarrow>
   'u ServiceFactory" where
  "singleton c sc key deps init disp =
     \<lparr> provides = key,
       dependsOn = (case deps of None \<Rightarrow> [] | Some ds \<Rightarrow> ds),
       scope = sc,
       lifetime = Singleton c,
       user_initialize = init,
       user_dispose = (case disp of None \<Rightarrow> (\<lambda>v u. (None, u)) | Some d \<Rightarrow> d) \<rparr>"

text \<open>
  \<^verbatim>\<open>oneShot({provides, dependsOn, initialize})\<close> returns an object with neither a scope
  nor a \<^verbatim>\<open>dispose\<close> member.
\<close>

definition oneShot ::
  "ServiceKey \<Rightarrow> ServiceKey list \<Rightarrow> (val list \<Rightarrow> 'u \<Rightarrow> (exn + val) \<times> 'u) \<Rightarrow> 'u ServiceFactory" where
  "oneShot key deps init =
     \<lparr> provides = key,
       dependsOn = deps,
       scope = None,
       lifetime = OneShot,
       user_initialize = init,
       user_dispose = (\<lambda>v u. (None, u)) \<rparr>"

section \<open>The world the container runs in\<close>

text \<open>
  \<open>instances\<close> holds the closure variable \<^verbatim>\<open>instance\<close> of every singleton factory,
  \<open>user\<close> is the state the user's functions act on, and \<open>calls\<close> records every call of
  a user function, oldest first: the factory (by the symbol it provides), the arguments
  and the outcome.
\<close>

datatype call =
    Initialized nat "val list" "exn + val"
  | Disposed nat val "exn option"

record 'u world =
  instances :: "nat \<Rightarrow> val"
  user :: 'u
  calls :: "call list"

section \<open>Modules: construction and validation\<close>

datatype 'u ServiceModule = ServiceModule (factories: "'u ServiceFactory list")

datatype 'u entry = Factory "'u ServiceFactory" | Module "'u ServiceModule"

definition isRegistered :: "ServiceKey \<Rightarrow> 'u ServiceFactory list \<Rightarrow> bool" where
  "isRegistered key fs = list_ex (\<lambda>factory. symbol (provides factory) = symbol key) fs"

definition isSuitable :: "ServiceKey \<Rightarrow> 'u ServiceFactory \<Rightarrow> bool" where
  "isSuitable key factory = (symbol (provides factory) = symbol key)"

text \<open>\<^verbatim>\<open>Array.prototype.join\<close>.\<close>

fun join :: "string \<Rightarrow> string list \<Rightarrow> string" where
  "join sep [] = []"
| "join sep [x] = x"
| "join sep (x # y # ys) = x @ sep @ join sep (y # ys)"

text \<open>A check returns \<open>Some e\<close> when the source throws \<open>e\<close> and \<open>None\<close> when it returns.\<close>

definition checkRecursiveDependencies :: "'u ServiceFactory \<Rightarrow> exn option" where
  "checkRecursiveDependencies factory =
     (let recursive =
            list_ex (\<lambda>dependencyKey. key_ref dependencyKey = key_ref (provides factory))
              (dependsOn factory)
      in if recursive
         then Some (Error (''Recursive dependency detected on: '' @ name (provides factory)))
         else None)"

definition checkMissingDependencies ::
  "'u ServiceFactory \<Rightarrow> 'u ServiceFactory list \<Rightarrow> exn option" where
  "checkMissingDependencies factory fs =
     (let missingDependencies =
            filter (\<lambda>dependencyKey. \<not> isRegistered dependencyKey fs) (dependsOn factory)
      in if length missingDependencies = 0 then None
         else
           let dependencyList =
                 join ''\<newline>''
                   (map (\<lambda>dependencyKey. '' -> '' @ name dependencyKey) missingDependencies)
           in Some (Error (name (provides factory) @ '' will fail because it depends on:''
                             @ ''\<newline>'' @ '' '' @ dependencyList)))"

text \<open>
  The body of the constructor: \<^verbatim>\<open>factories.forEach\<close> runs the two checks on each
  factory in order, against the whole list; the first throw ends the loop.
\<close>

fun validate :: "'u ServiceFactory list \<Rightarrow> 'u ServiceFactory list \<Rightarrow> exn option" where
  "validate fs [] = None"
| "validate fs (factory # rest) =
     (case checkRecursiveDependencies factory of
        Some e \<Rightarrow> Some e
      | None \<Rightarrow>
          (case checkMissingDependencies factory fs of
             Some e \<Rightarrow> Some e
           | None \<Rightarrow> validate fs rest))"

definition ServiceModule_new :: "'u ServiceFactory list \<Rightarrow> exn + 'u ServiceModule" where
  "ServiceModule_new fs =
     (case validate fs fs of Some e \<Rightarrow> Inl e | None \<Rightarrow> Inr (ServiceModule fs))"

text \<open>
  \<^verbatim>\<open>Map.prototype.set\<close> on a map kept as the list of its entries in insertion order:
  a key already present keeps its place and takes the new value, a new key goes last.
\<close>

fun Map_set :: "(nat \<times> 'a) list \<Rightarrow> nat \<Rightarrow> 'a \<Rightarrow> (nat \<times> 'a) list" where
  "Map_set [] k v = [(k, v)]"
| "Map_set ((k', v') # rest) k v =
     (if k' = k then (k, v) # rest else (k', v') # Map_set rest k v)"

definition flatten :: "'u entry list \<Rightarrow> 'u ServiceFactory list" where
  "flatten entries =
     concat (map (\<lambda>e. case e of Module m \<Rightarrow> factories m | Factory f \<Rightarrow> [f]) entries)"

definition byKey :: "'u ServiceFactory list \<Rightarrow> (nat \<times> 'u ServiceFactory) list" where
  "byKey flattened = foldl (\<lambda>m f. Map_set m (symbol (provides f)) f) [] flattened"

definition ServiceModule_from :: "'u entry list \<Rightarrow> exn + 'u ServiceModule" where
  "ServiceModule_from entries = ServiceModule_new (map snd (byKey (flatten entries)))"

section \<open>Resolution\<close>

text \<open>
  \<^verbatim>\<open>get\<close> is an async function: a call runs its body up to the first
  \<^verbatim>\<open>await\<close> and returns a promise; the rest of the body runs later, interleaved with
  the other pending calls. A promise is modelled by the task behind it:
  \<^item> \<open>Await factory children\<close>: the call found \<open>factory\<close>, called \<^verbatim>\<open>this.get\<close> on every
    entry of \<^verbatim>\<open>factory.dependsOn\<close> (the \<open>children\<close>, in that order) and is suspended at
    \<^verbatim>\<open>await Promise.all(...)\<close>;
  \<^item> \<open>Storing c v\<close>: the singleton's \<^verbatim>\<open>initialize\<close> has called the user's initializer,
    which produced \<open>v\<close>, and is suspended at \<^verbatim>\<open>instance = await initialize(...)\<close>;
  \<^item> \<open>Done v\<close>: the promise is fulfilled with \<open>v\<close>;
  \<^item> \<open>Failed e children\<close>: the promise is rejected with \<open>e\<close>; \<^verbatim>\<open>Promise.all\<close> does not
    cancel the calls that are still pending, so they stay as \<open>children\<close>.
\<close>

datatype 'u task =
    Await "'u ServiceFactory" "'u task list"
  | Storing nat val
  | Done val
  | Failed exn "'u task list"

text \<open>
  The synchronous part of a call of \<^verbatim>\<open>get\<close>. The recursion follows the dependency
  graph, so it is bounded by fuel: \<open>None\<close> means the fuel ran out before the call
  returned its promise.
\<close>

fun get :: "nat \<Rightarrow> 'u ServiceModule \<Rightarrow> ServiceKey \<Rightarrow> 'u task option" where
  "get 0 m key = None"
| "get (Suc n) m key =
     (case find (isSuitable key) (factories m) of
        None \<Rightarrow> Some (Failed (Error (''Could not find a suitable factory for '' @ name key)) [])
      | Some factory \<Rightarrow>
          map_option (Await factory) (those (map (get n m) (dependsOn factory))))"

text \<open>
  A call of the user's initializer, recorded in \<open>calls\<close>. The call is one step: what it
  does to the user state and what it returns or throws are fixed when it is made, and it
  does not call back into the module. An initializer that completes asynchronously hands
  its outcome over later; that is the next turn of the task that called it.
\<close>

definition invoke ::
  "'u ServiceFactory \<Rightarrow> val list \<Rightarrow> 'u world \<Rightarrow> (exn + val) \<times> 'u world" where
  "invoke factory args w =
     (case user_initialize factory args (user w) of
        (r, u') \<Rightarrow>
          (r, w\<lparr>user := u',
                calls := calls w @ [Initialized (symbol (provides factory)) args r]\<rparr>))"

text \<open>
  \<^verbatim>\<open>factory.initialize(...dependencies)\<close> up to its first suspension. A one-shot
  factory's \<^verbatim>\<open>initialize\<close> is the user's function. A singleton's tests
  \<^verbatim>\<open>instance === undefined\<close>: when the cache is empty it calls the user's function and
  suspends before the assignment; otherwise it returns \<^verbatim>\<open>instance\<close>.
\<close>

definition initialize ::
  "'u ServiceFactory \<Rightarrow> val list \<Rightarrow> 'u world \<Rightarrow> 'u task \<times> 'u world" where
  "initialize factory args w =
     (case lifetime factory of
        OneShot \<Rightarrow>
          (case invoke factory args w of
             (Inr v, w') \<Rightarrow> (Done v, w')
           | (Inl e, w') \<Rightarrow> (Failed e [], w'))
      | Singleton c \<Rightarrow>
          if instances w c = Undefined
          then (case invoke factory args w of
                  (Inr v, w') \<Rightarrow> (Storing c v, w')
                | (Inl e, w') \<Rightarrow> (Failed e [], w'))
          else (Done (instances w c), w))"

text \<open>The values of the children when every one of them is fulfilled.\<close>

definition fulfilled :: "'u task list \<Rightarrow> val list option" where
  "fulfilled cs = those (map (\<lambda>c. case c of Done v \<Rightarrow> Some v | _ \<Rightarrow> None) cs)"

text \<open>
  One turn of the event loop resumes one suspended call. An action names the call by its
  path in the tree and says what happens:
  \<^item> \<open>Resume\<close> on \<open>Await\<close>: \<^verbatim>\<open>Promise.all\<close> is fulfilled, which needs every child
    fulfilled; the body goes on with \<^verbatim>\<open>return factory.initialize(...dependencies)\<close>,
    the values in the order of the children;
  \<^item> \<open>Resume\<close> on \<open>Storing\<close>: the assignment \<^verbatim>\<open>instance = ...\<close> and the return;
  \<^item> \<open>Reject i\<close> on \<open>Await\<close>: child \<open>i\<close> is rejected, \<^verbatim>\<open>Promise.all\<close> rejects with its
    error and the \<^verbatim>\<open>await\<close> throws it;
  \<^item> \<open>Child i a\<close>: action \<open>a\<close> in child \<open>i\<close>.
  An action that is not enabled gives \<open>None\<close>. Which enabled action comes next is up to
  the scheduler; the properties below hold for every schedule.
\<close>

datatype action = Resume | Reject nat | Child nat action

fun act :: "action \<Rightarrow> 'u task \<Rightarrow> 'u world \<Rightarrow> ('u task \<times> 'u world) option" where
  "act Resume (Await factory cs) w =
     (case fulfilled cs of
        Some dependencies \<Rightarrow> Some (initialize factory dependencies w)
      | None \<Rightarrow> None)"
| "act Resume (Storing c v) w = Some (Done v, w\<lparr>instances := (instances w)(c := v)\<rparr>)"
| "act (Reject i) (Await factory cs) w =
     (if i < length cs
      then (case cs ! i of Failed e bg \<Rightarrow> Some (Failed e cs, w) | _ \<Rightarrow> None)
      else None)"
| "act (Child i a) (Await factory cs) w =
     (if i < length cs
      then (case act a (cs ! i) w of
              Some (c', w') \<Rightarrow> Some (Await factory (cs[i := c']), w')
            | None \<Rightarrow> None)
      else None)"
| "act (Child i a) (Failed e cs) w =
     (if i < length cs
      then (case act a (cs ! i) w of
              Some (c', w') \<Rightarrow> Some (Failed e (cs[i := c']), w')
            | None \<Rightarrow> None)
      else None)"
| "act a t w = None"

fun run :: "action list \<Rightarrow> 'u task \<Rightarrow> 'u world \<Rightarrow> ('u task \<times> 'u world) option" where
  "run [] t w = Some (t, w)"
| "run (a # as) t w =
     (case act a t w of
        Some (t', w') \<Rightarrow> run as t' w'
      | None \<Rightarrow> None)"

text \<open>What the caller of \<^verbatim>\<open>get\<close> sees of its promise.\<close>

fun settled :: "'u task \<Rightarrow> (exn + val) option" where
  "settled (Done v) = Some (Inr v)"
| "settled (Failed e cs) = Some (Inl e)"
| "settled t = None"

section \<open>Disposal\<close>

text \<open>
  \<^verbatim>\<open>factory.dispose?.()\<close>: a one-shot factory has no \<^verbatim>\<open>dispose\<close>; a singleton's
  calls the user's teardown on a cached instance and then empties the cache. A teardown
  that throws leaves the cache as it is.
\<close>

definition dispose_factory :: "'u ServiceFactory \<Rightarrow> 'u world \<Rightarrow> exn option \<times> 'u world" where
  "dispose_factory factory w =
     (case lifetime factory of
        OneShot \<Rightarrow> (None, w)
      | Singleton c \<Rightarrow>
          if instances w c \<noteq> Undefined
          then (case user_dispose factory (instances w c) (user w) of
                  (r, u') \<Rightarrow>
                    let w' = w\<lparr>user := u',
                               calls := calls w @
                                 [Disposed (symbol (provides factory)) (instances w c) r]\<rparr>
                    in (case r of
                          Some e \<Rightarrow> (Some e, w')
                        | None \<Rightarrow> (None, w'\<lparr>instances := (instances w')(c := Undefined)\<rparr>)))
          else (None, w))"

fun dispose_each :: "'u ServiceFactory list \<Rightarrow> 'u world \<Rightarrow> exn option \<times> 'u world" where
  "dispose_each [] w = (None, w)"
| "dispose_each (factory # rest) w =
     (case dispose_factory factory w of
        (Some e, w') \<Rightarrow> (Some e, w')
      | (None, w') \<Rightarrow> dispose_each rest w')"

definition in_scope :: "ServiceScope \<Rightarrow> 'u ServiceFactory \<Rightarrow> bool" where
  "in_scope sc f = (case scope f of Some fs \<Rightarrow> scope_ref fs = scope_ref sc | None \<Rightarrow> False)"

definition dispose ::
  "'u ServiceModule \<Rightarrow> ServiceScope option \<Rightarrow> 'u world \<Rightarrow> exn option \<times> 'u world" where
  "dispose m sc w =
     (let fs = (case sc of
                  Some s \<Rightarrow> filter (in_scope s) (factories m)
                | None \<Rightarrow> factories m)
      in dispose_each fs w)"

section \<open>Measures and relations used in the analysis\<close>

text \<open>
  The entries of the map built by \<^verbatim>\<open>from\<close> are keyed by the symbol their factory
  provides.
\<close>

definition keyed :: "(nat \<times> 'u ServiceFactory) list \<Rightarrow> bool" where
  "keyed m = (\<forall>(k, f) \<in> set m. k = symbol (provides f))"

text \<open>
  The dependency graph of a module: an edge from the symbol a factory provides to the
  symbol of each key in its \<^verbatim>\<open>dependsOn\<close>.
\<close>

definition dependency_graph :: "'u ServiceModule \<Rightarrow> (nat \<times> nat) set" where
  "dependency_graph m =
     set (concat (map (\<lambda>f. map (\<lambda>d. (symbol (provides f), symbol d)) (dependsOn f)) (factories m)))"

text \<open>
  The turns of the event loop a task can still take: two for a call suspended at
  \<^verbatim>\<open>Promise.all\<close> (resuming, and the store of a singleton), one for a pending store.
\<close>

fun work :: "'u task \<Rightarrow> nat" where
  "work (Await f cs) = 2 + sum_list (map work cs)"
| "work (Storing c v) = 1"
| "work (Done v) = 0"
| "work (Failed e cs) = sum_list (map work cs)"

text \<open>
  What a task tree holds: the factories of the suspended calls, the stores that are
  pending (location and value), and the errors of the rejected promises.
\<close>

fun awaited :: "'u task \<Rightarrow> 'u ServiceFactory set" where
  "awaited (Await f cs) = insert f (\<Union>c \<in> set cs. awaited c)"
| "awaited (Failed e cs) = (\<Union>c \<in> set cs. awaited c)"
| "awaited t = {}"

fun storing :: "'u task \<Rightarrow> (nat \<times> val) set" where
  "storing (Await f cs) = (\<Union>c \<in> set cs. storing c)"
| "storing (Failed e cs) = (\<Union>c \<in> set cs. storing c)"
| "storing (Storing c v) = {(c, v)}"
| "storing t = {}"

fun failures :: "'u task \<Rightarrow> exn set" where
  "failures (Await f cs) = (\<Union>c \<in> set cs. failures c)"
| "failures (Failed e cs) = insert e (\<Union>c \<in> set cs. failures c)"
| "failures t = {}"

text \<open>
  Every turn of the event loop is of one of three kinds. It leaves the world alone (a
  cached instance is returned, or a rejection is passed on); or it calls the initializer
  of a suspended factory, a one-shot one or a singleton with an empty cache, and what the
  call returns becomes a pending store or a fulfilled promise and what it throws becomes a
  rejected promise; or it carries out a pending store. \<open>A\<close>, \<open>S\<close> and \<open>F\<close> are the
  factories, pending stores and failures before the turn, \<open>S'\<close> and \<open>F'\<close> those after it.
\<close>

definition step_effect ::
  "'u ServiceFactory set \<Rightarrow> (nat \<times> val) set \<Rightarrow> exn set \<Rightarrow> 'u world \<Rightarrow>
   (nat \<times> val) set \<Rightarrow> exn set \<Rightarrow> 'u world \<Rightarrow> bool" where
  "step_effect A S F w S' F' w' =
     ((w' = w \<and> S' \<subseteq> S \<and> F' \<subseteq> F) \<or>
      (\<exists>f vs r. f \<in> A \<and>
         (lifetime f = OneShot \<or> (\<exists>c. lifetime f = Singleton c \<and> instances w c = Undefined)) \<and>
         invoke f vs w = (r, w') \<and>
         (case r of
            Inl e \<Rightarrow> S' \<subseteq> S \<and> F' \<subseteq> insert e F
          | Inr v \<Rightarrow> F' \<subseteq> F \<and>
              (case lifetime f of
                 OneShot \<Rightarrow> S' \<subseteq> S
               | Singleton c \<Rightarrow> S' \<subseteq> insert (c, v) S))) \<or>
      (\<exists>c v. (c, v) \<in> S \<and> w' = w\<lparr>instances := (instances w)(c := v)\<rparr> \<and> S' \<subseteq> S \<and> F' \<subseteq> F))"

text \<open>The calls of the initializer of the factory that provides symbol \<open>k\<close>, oldest first.\<close>

definition invocations :: "nat \<Rightarrow> 'u world \<Rightarrow> call list" where
  "invocations k w =
     filter (\<lambda>c. case c of Initialized k' args r \<Rightarrow> k' = k | Disposed k' v r \<Rightarrow> False) (calls w)"


text \<open>
  A task tree in which nothing is left to run: the promise is settled, and so is every
  resolution that a rejected call left behind.
\<close>

fun finished :: "'u task \<Rightarrow> bool" where
  "finished (Done v) = True"
| "finished (Failed e cs) = list_all finished cs"
| "finished t = False"

text \<open>
  The locations of the caches of the singleton factories of a list. Every call of
  \<^verbatim>\<open>singleton\<close> allocates its own \<^verbatim>\<open>instance\<close>, so in a list of distinct factory
  objects they are distinct.
\<close>

definition singleton_cells :: "'u ServiceFactory list \<Rightarrow> nat list" where
  "singleton_cells fs =
     concat (map (\<lambda>f. case lifetime f of Singleton c \<Rightarrow> [c] | OneShot \<Rightarrow> []) fs)"

text \<open>The instance a factory holds: a one-shot factory holds none.\<close>

definition cached_instance :: "'u ServiceFactory \<Rightarrow> 'u world \<Rightarrow> val" where
  "cached_instance f w = (case lifetime f of Singleton c \<Rightarrow> instances w c | OneShot \<Rightarrow> Undefined)"

text \<open>The factories that \<^verbatim>\<open>dispose(scope?)\<close> goes through.\<close>

definition selected :: "ServiceScope option \<Rightarrow> 'u ServiceFactory \<Rightarrow> bool" where
  "selected sc f = (case sc of Some s \<Rightarrow> in_scope s f | None \<Rightarrow> True)"

section \<open>A sample application\<close>

text \<open>
  Keys \<open>Config\<close>, \<open>Logger\<close> and \<open>App\<close>; \<open>App\<close> depends on \<open>[Config, Logger]\<close> and
  \<open>Logger\<close> on \<open>[Config]\<close>. The user state counts the objects created so far, and
  \<open>fresh\<close> is an initializer that creates a new object on every call.
\<close>

definition Config :: ServiceKey where
  "Config = \<lparr>key_ref = 0, name = ''Config'', symbol = 0\<rparr>"

definition Logger :: ServiceKey where
  "Logger = \<lparr>key_ref = 1, name = ''Logger'', symbol = 1\<rparr>"

definition App :: ServiceKey where
  "App = \<lparr>key_ref = 2, name = ''App'', symbol = 2\<rparr>"

definition Database :: ServiceKey where
  "Database = \<lparr>key_ref = 3, name = ''Database'', symbol = 3\<rparr>"

definition fresh :: "val list \<Rightarrow> nat \<Rightarrow> (exn + val) \<times> nat" where
  "fresh args u = (Inr (Obj u), Suc u)"

definition ConfigFactory :: "nat ServiceFactory" where
  "ConfigFactory = singleton 0 None Config None fresh None"

definition LoggerFactory :: "nat ServiceFactory" where
  "LoggerFactory = singleton 1 None Logger (Some [Config]) fresh None"

definition AppFactory :: "nat ServiceFactory" where
  "AppFactory = oneShot App [Config, Logger] fresh"

text \<open>A second factory for \<open>Config\<close>, to override the first.\<close>

definition ConfigOverride :: "nat ServiceFactory" where
  "ConfigOverride = singleton 4 None Config None (\<lambda>args u. (Inr (Obj 100), u)) None"

text \<open>Two factories that break the invariants of a module.\<close>

definition SelfFactory :: "nat ServiceFactory" where
  "SelfFactory = singleton 3 None Database (Some [Database]) fresh None"

definition BadConfig :: "nat ServiceFactory" where
  "BadConfig = singleton 5 None Config (Some [Config, Database]) fresh None"

definition Application :: "nat ServiceModule" where
  "Application = ServiceModule [ConfigFactory, LoggerFactory, AppFactory]"

text \<open>The world before anything has run: every cache empty, no object created, no call made.\<close>

definition initial :: "nat world" where
  "initial = \<lparr>instances = (\<lambda>c. Undefined), user = 0, calls = []\<rparr>"

text \<open>
  The promise of \<^verbatim>\<open>get(App)\<close>, a schedule that resumes the two pending calls for
  \<open>Config\<close> before either has stored its instance, and the world that schedule ends in.
\<close>

definition AppTask :: "nat task" where
  "AppTask = Await AppFactory [Await ConfigFactory [], Await LoggerFactory [Await ConfigFactory []]]"

definition AppSchedule :: "action list" where
  "AppSchedule =
     [Child 0 Resume, Child 1 (Child 0 Resume), Child 0 Resume, Child 1 (Child 0 Resume),
      Child 1 Resume, Child 1 Resume, Resume]"

definition AppWorld :: "nat world" where
  "AppWorld =
     \<lparr>instances = (\<lambda>c. Undefined)(0 := Obj 1, 1 := Obj 2),
      user = 4,
      calls = [Initialized 0 [] (Inr (Obj 0)),
               Initialized 0 [] (Inr (Obj 1)),
               Initialized 1 [Obj 1] (Inr (Obj 2)),
               Initialized 2 [Obj 0, Obj 2] (Inr (Obj 3))]\<rparr>"

text \<open>
  A singleton service that is run for its effect: its initializer returns
  \<^verbatim>\<open>undefined\<close>.
\<close>

definition Migration :: ServiceKey where
  "Migration = \<lparr>key_ref = 6, name = ''Migration'', symbol = 6\<rparr>"

definition MigrationFactory :: "nat ServiceFactory" where
  "MigrationFactory = singleton 6 None Migration None (\<lambda>args u. (Inr Undefined, Suc u)) None"

definition MigrationModule :: "nat ServiceModule" where
  "MigrationModule = ServiceModule [MigrationFactory]"

text \<open>
  A job that needs \<open>Config\<close> and a service whose initializer always throws; the schedule
  lets \<open>Config\<close> complete before the rejection reaches the job.
\<close>

definition Broken :: ServiceKey where
  "Broken = \<lparr>key_ref = 7, name = ''Broken'', symbol = 7\<rparr>"

definition Job :: ServiceKey where
  "Job = \<lparr>key_ref = 8, name = ''Job'', symbol = 8\<rparr>"

definition BrokenFactory :: "nat ServiceFactory" where
  "BrokenFactory = oneShot Broken [] (\<lambda>args u. (Inl (Error ''boom''), u))"

definition JobFactory :: "nat ServiceFactory" where
  "JobFactory = oneShot Job [Config, Broken] fresh"

definition JobModule :: "nat ServiceModule" where
  "JobModule = ServiceModule [ConfigFactory, BrokenFactory, JobFactory]"

definition JobTask :: "nat task" where
  "JobTask = Await JobFactory [Await ConfigFactory [], Await BrokenFactory []]"

definition JobSchedule :: "action list" where
  "JobSchedule = [Child 0 Resume, Child 1 Resume, Child 0 Resume, Reject 1]"

definition JobWorld :: "nat world" where
  "JobWorld =
     \<lparr>instances = (\<lambda>c. Undefined)(0 := Obj 0),
      user = 1,
      calls = [Initialized 0 [] (Inr (Obj 0)), Initialized 7 [] (Inl (Error ''boom''))]\<rparr>"











text \<open>
  Two scope objects with the same name; a singleton in each, one without a scope, one
  in the first scope that is never resolved, and a one-shot factory. Each teardown
  leaves its mark on the user's state. A world in which three singletons hold an
  instance, and the world after \<^verbatim>\<open>dispose(RequestScope)\<close>.
\<close>

definition RequestScope :: ServiceScope where
  "RequestScope = \<lparr>scope_ref = 0, scope_name = ''request'', scope_symbol = 100\<rparr>"

definition SecondRequestScope :: ServiceScope where
  "SecondRequestScope = \<lparr>scope_ref = 1, scope_name = ''request'', scope_symbol = 101\<rparr>"

definition Metrics :: ServiceKey where
  "Metrics = \<lparr>key_ref = 9, name = ''Metrics'', symbol = 9\<rparr>"

definition ConfigPerRequest :: "nat ServiceFactory" where
  "ConfigPerRequest =
     singleton 10 (Some RequestScope) Config None fresh (Some (\<lambda>v u. (None, u + 100)))"

definition SecondLogger :: "nat ServiceFactory" where
  "SecondLogger =
     singleton 11 (Some SecondRequestScope) Logger None fresh (Some (\<lambda>v u. (None, u + 1000)))"

definition DatabaseFactory :: "nat ServiceFactory" where
  "DatabaseFactory = singleton 12 None Database None fresh (Some (\<lambda>v u. (None, u + 10000)))"

definition RequestMetrics :: "nat ServiceFactory" where
  "RequestMetrics =
     singleton 13 (Some RequestScope) Metrics None fresh (Some (\<lambda>v u. (None, u + 7)))"

definition ScopedApplication :: "nat ServiceModule" where
  "ScopedApplication =
     ServiceModule [ConfigPerRequest, SecondLogger, DatabaseFactory, RequestMetrics, AppFactory]"

definition ServingWorld :: "nat world" where
  "ServingWorld =
     \<lparr>instances = (\<lambda>c. Undefined)(10 := Obj 0, 11 := Obj 1, 12 := Obj 2), user = 3, calls = []\<rparr>"

definition RequestEndWorld :: "nat world" where
  "RequestEndWorld =
     \<lparr>instances = (\<lambda>c. Undefined)(11 := Obj 1, 12 := Obj 2), user = 103,
      calls = [Disposed 0 (Obj 0) None]\<rparr>"

text \<open>
  A scoped singleton whose initializer succeeds once only; the world after its first
  resolution, and the world after \<^verbatim>\<open>dispose(RequestScope)\<close>.
\<close>

definition Lease :: ServiceKey where
  "Lease = \<lparr>key_ref = 40, name = ''Lease'', symbol = 40\<rparr>"

definition LeaseFactory :: "nat ServiceFactory" where
  "LeaseFactory =
     singleton 40 (Some RequestScope) Lease None
       (\<lambda>args u. if u = 0 then (Inr (Obj 0), Suc u) else (Inl (Error ''lease expired''), u))
       None"

definition LeaseModule :: "nat ServiceModule" where
  "LeaseModule = ServiceModule [LeaseFactory]"

definition LeaseWorld :: "nat world" where
  "LeaseWorld =
     \<lparr>instances = (\<lambda>c. Undefined)(40 := Obj 0), user = 1,
      calls = [Initialized 40 [] (Inr (Obj 0))]\<rparr>"

definition ReleasedWorld :: "nat world" where
  "ReleasedWorld =
     \<lparr>instances = (\<lambda>c. Undefined), user = 1,
      calls = [Initialized 40 [] (Inr (Obj 0)), Disposed 40 (Obj 0) None]\<rparr>"

text \<open>Two services that depend on each other.\<close>

definition Ping :: ServiceKey where
  "Ping = \<lparr>key_ref = 20, name = ''Ping'', symbol = 20\<rparr>"

definition Pong :: ServiceKey where
  "Pong = \<lparr>key_ref = 21, name = ''Pong'', symbol = 21\<rparr>"

definition PingFactory :: "nat ServiceFactory" where
  "PingFactory = oneShot Ping [Pong] fresh"

definition PongFactory :: "nat ServiceFactory" where
  "PongFactory = oneShot Pong [Ping] fresh"

definition CycleModule :: "nat ServiceModule" where
  "CycleModule = ServiceModule [PingFactory, PongFactory]"

section \<open>Facts about composition\<close>

lemmas sample_defs = Config_def Logger_def App_def Database_def ConfigFactory_def
  LoggerFactory_def AppFactory_def ConfigOverride_def SelfFactory_def BadConfig_def
  singleton_def oneShot_def

lemmas eval_defs = ServiceModule_from_def byKey_def flatten_def ServiceModule_new_def
  checkRecursiveDependencies_def checkMissingDependencies_def isRegistered_def isSuitable_def
  sample_defs

lemma Map_set_keys:
  "map fst (Map_set m k v) = (if k \<in> set (map fst m) then map fst m else map fst m @ [k])"
  by (induction m k v rule: Map_set.induct) auto

lemma Map_set_distinct: "distinct (map fst m) \<Longrightarrow> distinct (map fst (Map_set m k v))"
  by (simp add: Map_set_keys)

lemma Map_set_map_of: "map_of (Map_set m k v) = (map_of m)(k \<mapsto> v)"
  by (induction m k v rule: Map_set.induct) auto

lemma Map_set_set: "set (Map_set m k v) \<subseteq> insert (k, v) (set m)"
  by (induction m k v rule: Map_set.induct) auto

lemma Map_set_keyed: "keyed m \<Longrightarrow> keyed (Map_set m (symbol (provides f)) f)"
  using Map_set_set[of m "symbol (provides f)" f] by (auto simp: keyed_def)

lemma foldl_distinct:
  "distinct (map fst m) \<Longrightarrow> distinct (map fst (foldl (\<lambda>m f. Map_set m (symbol (provides f)) f) m fs))"
  by (induction fs arbitrary: m) (auto simp: Map_set_distinct)

lemma foldl_keyed:
  "keyed m \<Longrightarrow> keyed (foldl (\<lambda>m f. Map_set m (symbol (provides f)) f) m fs)"
  by (induction fs arbitrary: m) (auto simp: Map_set_keyed)

lemma foldl_map_of:
  "map_of (foldl (\<lambda>m f. Map_set m (symbol (provides f)) f) m fs) k =
     (case filter (\<lambda>f. symbol (provides f) = k) fs of [] \<Rightarrow> map_of m k | xs \<Rightarrow> Some (last xs))"
proof (induction fs arbitrary: m)
  case Nil
  then show ?case by simp
next
  case (Cons f fs)
  show ?case
    by (simp add: Cons.IH Map_set_map_of split: list.splits)
qed

lemma byKey_distinct: "distinct (map fst (byKey fs))"
  unfolding byKey_def by (rule foldl_distinct) simp

lemma byKey_keyed: "keyed (byKey fs)"
  unfolding byKey_def by (rule foldl_keyed) (simp add: keyed_def)

lemma byKey_map_of:
  "map_of (byKey fs) k =
     (case filter (\<lambda>f. symbol (provides f) = k) fs of [] \<Rightarrow> None | xs \<Rightarrow> Some (last xs))"
  unfolding byKey_def by (simp add: foldl_map_of split: list.splits)

lemma keyed_filter:
  "keyed m \<Longrightarrow> distinct (map fst m) \<Longrightarrow>
   filter (\<lambda>f. symbol (provides f) = k) (map snd m) =
     (case map_of m k of None \<Rightarrow> [] | Some f \<Rightarrow> [f])"
proof (induction m)
  case Nil
  then show ?case by simp
next
  case (Cons p m)
  obtain k' f' where p: "p = (k', f')" by (cases p)
  from Cons.prems have km: "keyed m" and dm: "distinct (map fst m)"
    and k': "k' = symbol (provides f')" and nk: "k' \<notin> fst ` set m"
    by (auto simp: keyed_def p)
  have none: "map_of m k' = None" using nk by (simp add: map_of_eq_None_iff)
  show ?case
    using Cons.IH[OF km dm] none k' by (auto simp: p split: option.splits)
qed

lemma survivors_filter:
  "filter (isSuitable K) (map snd (byKey fs)) =
     (case filter (isSuitable K) fs of [] \<Rightarrow> [] | xs \<Rightarrow> [last xs])"
proof -
  have eq: "isSuitable K = (\<lambda>f::'a ServiceFactory. symbol (provides f) = symbol K)"
    by (rule ext) (simp add: isSuitable_def)
  show ?thesis
    unfolding eq
    by (simp add: keyed_filter[OF byKey_keyed byKey_distinct] byKey_map_of split: list.splits)
qed

lemma find_filter: "find P xs = (case filter P xs of [] \<Rightarrow> None | x # _ \<Rightarrow> Some x)"
  by (induction xs) auto

lemma from_factories:
  "ServiceModule_from entries = Inr m \<Longrightarrow> factories m = map snd (byKey (flatten entries))"
  by (auto simp: ServiceModule_from_def ServiceModule_new_def split: option.splits)

lemma set_survivors:
  "set (map snd (byKey fs)) = (\<lambda>g. last (filter (isSuitable (provides g)) fs)) ` set fs"
proof -
  have eq: "isSuitable K = (\<lambda>f::'a ServiceFactory. symbol (provides f) = symbol K)" for K
    by (rule ext) (simp add: isSuitable_def)
  have "\<And>f. f \<in> snd ` set (byKey fs) \<longleftrightarrow> (\<exists>k. map_of (byKey fs) k = Some f)"
    using byKey_distinct[of fs] by (force simp: map_of_eq_Some_iff)
  moreover have "\<And>f. (\<exists>k. map_of (byKey fs) k = Some f) \<longleftrightarrow>
      (\<exists>g \<in> set fs. f = last (filter (\<lambda>f. symbol (provides f) = symbol (provides g)) fs))"
  proof
    fix f assume "\<exists>k. map_of (byKey fs) k = Some f"
    then obtain k where k: "map_of (byKey fs) k = Some f" ..
    then have ne: "filter (\<lambda>f. symbol (provides f) = k) fs \<noteq> []"
      and f: "f = last (filter (\<lambda>f. symbol (provides f) = k) fs)"
      by (auto simp: byKey_map_of split: list.splits)
    from ne obtain g where "g \<in> set fs" "symbol (provides g) = k"
      by (metis (mono_tags, lifting) filter_False)
    with f show "\<exists>g \<in> set fs. f = last (filter (\<lambda>f. symbol (provides f) = symbol (provides g)) fs)"
      by auto
  next
    fix f assume "\<exists>g \<in> set fs. f = last (filter (\<lambda>f. symbol (provides f) = symbol (provides g)) fs)"
    then obtain g where g: "g \<in> set fs"
      and f: "f = last (filter (\<lambda>f. symbol (provides f) = symbol (provides g)) fs)" by auto
    from g have "filter (\<lambda>f. symbol (provides f) = symbol (provides g)) fs \<noteq> []"
      by (auto simp: filter_empty_conv)
    then have "map_of (byKey fs) (symbol (provides g)) = Some f"
      by (auto simp: byKey_map_of f split: list.splits)
    then show "\<exists>k. map_of (byKey fs) k = Some f" ..
  qed
  ultimately have "\<And>f. f \<in> snd ` set (byKey fs) \<longleftrightarrow>
      f \<in> (\<lambda>g. last (filter (\<lambda>f. symbol (provides f) = symbol (provides g)) fs)) ` set fs"
    by (simp add: image_iff)
  then have "snd ` set (byKey fs) =
      (\<lambda>g. last (filter (\<lambda>f. symbol (provides f) = symbol (provides g)) fs)) ` set fs"
    by blast
  then show ?thesis by (simp add: eq)
qed

lemma validate_append:
  "validate fs (pre @ f # post) =
     (case validate fs pre of
        Some e \<Rightarrow> Some e
      | None \<Rightarrow>
          (case checkRecursiveDependencies f of
             Some e \<Rightarrow> Some e
           | None \<Rightarrow>
               (case checkMissingDependencies f fs of
                  Some e \<Rightarrow> Some e
                | None \<Rightarrow> validate fs post)))"
  by (induction pre) (auto split: option.splits)

lemma validate_None:
  "validate fs xs = None \<longleftrightarrow>
     (\<forall>f \<in> set xs. checkRecursiveDependencies f = None \<and> checkMissingDependencies f fs = None)"
  by (induction xs) (auto split: option.splits)

lemma checkRecursive_Some:
  "\<exists>d \<in> set (dependsOn f). key_ref d = key_ref (provides f) \<Longrightarrow>
   checkRecursiveDependencies f =
     Some (Error (''Recursive dependency detected on: '' @ name (provides f)))"
  by (auto simp: checkRecursiveDependencies_def list_ex_iff)

lemma checkMissing_Some:
  "filter (\<lambda>d. \<not> isRegistered d fs) (dependsOn f) = missing \<Longrightarrow> missing \<noteq> [] \<Longrightarrow>
   checkMissingDependencies f fs =
     Some (Error (name (provides f) @ '' will fail because it depends on:'' @ ''\<newline>'' @ '' '' @
                  join ''\<newline>'' (map (\<lambda>d. '' -> '' @ name d) missing)))"
  by (auto simp: checkMissingDependencies_def Let_def)

text \<open>
  \<^bold>\<open>C2.\<close> When \<^verbatim>\<open>ServiceModule.from\<close> returns a module and at least one factory of the
  flattened entries provides \<open>K\<close> (by symbol), the module holds exactly one factory for
  \<open>K\<close>: the last such factory of the flattened sequence. \<^verbatim>\<open>get(K)\<close> finds that
  factory, and the promise it returns is the call suspended on that factory's
  dependencies.
\<close>

theorem from_last_wins:
  assumes "ServiceModule_from entries = Inr m"
    and "filter (isSuitable K) (flatten entries) \<noteq> []"
  shows "filter (isSuitable K) (factories m) = [last (filter (isSuitable K) (flatten entries))] \<and>
         find (isSuitable K) (factories m) = Some (last (filter (isSuitable K) (flatten entries))) \<and>
         get (Suc n) m K =
           map_option (Await (last (filter (isSuitable K) (flatten entries))))
             (those (map (get n m) (dependsOn (last (filter (isSuitable K) (flatten entries))))))"
proof -
  let ?f = "last (filter (isSuitable K) (flatten entries))"
  have fs: "factories m = map snd (byKey (flatten entries))"
    using assms(1) by (rule from_factories)
  have one: "filter (isSuitable K) (factories m) = [?f]"
    using assms(2) by (simp add: fs survivors_filter split: list.splits)
  then have found: "find (isSuitable K) (factories m) = Some ?f"
    by (simp add: find_filter)
  then show ?thesis using one by simp
qed

theorem from_last_wins_witness:
  "ServiceModule_from [Module (ServiceModule [ConfigFactory, LoggerFactory]), Factory ConfigOverride]
     = Inr (ServiceModule [ConfigOverride, LoggerFactory]) \<and>
   filter (isSuitable Config) (factories (ServiceModule [ConfigOverride, LoggerFactory])) = [ConfigOverride] \<and>
   get (Suc 0) (ServiceModule [ConfigOverride, LoggerFactory]) Config = Some (Await ConfigOverride [])"
proof -
  let ?entries = "[Module (ServiceModule [ConfigFactory, LoggerFactory]), Factory ConfigOverride]"
  have 1: "ServiceModule_from ?entries = Inr (ServiceModule [ConfigOverride, LoggerFactory])"
    by (simp add: eval_defs)
  have 2: "filter (isSuitable Config) (flatten ?entries) = [ConfigFactory, ConfigOverride]"
    by (simp add: eval_defs)
  have 3: "dependsOn ConfigOverride = []" by (simp add: sample_defs)
  show ?thesis
    using from_last_wins[OF 1, of Config 0] 1 by (simp add: 2 3)
qed

text \<open>
  \<^bold>\<open>C7.\<close> When no factory of the module provides \<open>K\<close> (by symbol), \<^verbatim>\<open>get(K)\<close>
  returns a promise rejected with the error
  \<^verbatim>\<open>Could not find a suitable factory for <name of K>\<close>. When a factory provides
  \<open>K'\<close> in a module built by \<^verbatim>\<open>from\<close>, exactly one factory of the module matches the
  symbol of \<open>K'\<close>, and \<^verbatim>\<open>get(K')\<close> goes through it.
\<close>

theorem get_no_suitable_factory:
  "(\<not> isRegistered K (factories m) \<longrightarrow>
      get (Suc n) m K =
        Some (Failed (Error (''Could not find a suitable factory for '' @ name K)) [])) \<and>
   (ServiceModule_from entries = Inr m' \<and> isRegistered K' (factories m') \<longrightarrow>
      (\<exists>f. filter (isSuitable K') (factories m') = [f] \<and>
           get (Suc n) m' K' = map_option (Await f) (those (map (get n m') (dependsOn f)))))"
proof (intro conjI impI)
  assume "\<not> isRegistered K (factories m)"
  then have "filter (isSuitable K) (factories m) = []"
    by (auto simp: isRegistered_def isSuitable_def list_ex_iff filter_empty_conv)
  then have "find (isSuitable K) (factories m) = None"
    by (simp add: find_filter)
  then show "get (Suc n) m K =
        Some (Failed (Error (''Could not find a suitable factory for '' @ name K)) [])"
    by simp
next
  assume a: "ServiceModule_from entries = Inr m' \<and> isRegistered K' (factories m')"
  then have fs: "factories m' = map snd (byKey (flatten entries))"
    by (simp add: from_factories)
  from a have ne: "filter (isSuitable K') (factories m') \<noteq> []"
    by (auto simp: isRegistered_def isSuitable_def list_ex_iff filter_empty_conv)
  then obtain f where one: "filter (isSuitable K') (factories m') = [f]"
    unfolding fs survivors_filter by (auto split: list.splits)
  then have "find (isSuitable K') (factories m') = Some f"
    by (simp add: find_filter)
  with one show "\<exists>f. filter (isSuitable K') (factories m') = [f] \<and>
           get (Suc n) m' K' = map_option (Await f) (those (map (get n m') (dependsOn f)))"
    by simp
qed

theorem get_no_suitable_factory_witness:
  "get (Suc 0) (ServiceModule [ConfigFactory]) Logger =
     Some (Failed (Error ''Could not find a suitable factory for Logger'') []) \<and>
   (\<exists>f. filter (isSuitable Config) (factories (ServiceModule [ConfigFactory])) = [f] \<and>
        get (Suc 0) (ServiceModule [ConfigFactory]) Config =
          map_option (Await f) (those (map (get 0 (ServiceModule [ConfigFactory])) (dependsOn f))))"
proof -
  have 1: "\<not> isRegistered Logger (factories (ServiceModule [ConfigFactory]))"
    by (simp add: eval_defs)
  have 2: "ServiceModule_from [Factory ConfigFactory] = Inr (ServiceModule [ConfigFactory])"
    by (simp add: eval_defs)
  have 3: "isRegistered Config (factories (ServiceModule [ConfigFactory]))"
    by (simp add: eval_defs)
  have 4: "name Logger = ''Logger''" by (simp add: sample_defs)
  show ?thesis
    using get_no_suitable_factory[of Logger "ServiceModule [ConfigFactory]" 0
        "[Factory ConfigFactory]" "ServiceModule [ConfigFactory]" Config] 1 2 3
    by (simp add: 4)
qed

text \<open>
  \<^bold>\<open>C3\<close> says that for every factory of the module with missing dependencies the error
  names that factory and lists its missing dependencies. The constructor stops at the
  first violation it meets, so with two such factories the error is the one of the first
  only: here \<open>AppFactory\<close> misses \<open>Config\<close> and \<open>Logger\<close>, and the error names \<open>Job\<close>
  and the two dependencies that \<open>JobFactory\<close> misses, \<open>Config\<close> and \<open>Broken\<close>.
\<close>

theorem missing_dependencies_counterexample:
  "map snd (byKey (flatten [Factory JobFactory, Factory AppFactory])) = [JobFactory, AppFactory] \<and>
   filter (\<lambda>d. \<not> isRegistered d [JobFactory, AppFactory]) (dependsOn AppFactory) = [Config, Logger] \<and>
   ServiceModule_from [Factory JobFactory, Factory AppFactory] =
     Inl (Error ''Job will fail because it depends on:\<newline>  -> Config\<newline> -> Broken'') \<and>
   ServiceModule_from [Factory JobFactory, Factory AppFactory] \<noteq>
     Inl (Error ''App will fail because it depends on:\<newline>  -> Config\<newline> -> Logger'')"
  by (simp add: eval_defs Broken_def Job_def JobFactory_def)

text \<open>
  \<^bold>\<open>C3, amended.\<close> A factory of the deduplicated list with at least one dependency that
  no factory of the list provides makes construction fail. When no factory before it in
  the list violates an invariant and it does not depend on itself, the error is its own:
  the name of the service it provides, then
  \<^verbatim>\<open> will fail because it depends on:\<close>, a line break, a space, and every missing
  dependency as \<^verbatim>\<open> -> <name>\<close>, in the order of \<^verbatim>\<open>dependsOn\<close>, joined by line breaks.
\<close>

theorem missing_dependencies_rejected:
  assumes "map snd (byKey (flatten entries)) = pre @ f # post"
    and "filter (\<lambda>d. \<not> isRegistered d (pre @ f # post)) (dependsOn f) = missing"
    and "missing \<noteq> []"
  shows "(\<exists>e. ServiceModule_from entries = Inl e) \<and>
         (validate (pre @ f # post) pre = None \<and> checkRecursiveDependencies f = None \<longrightarrow>
            ServiceModule_from entries =
              Inl (Error (name (provides f) @ '' will fail because it depends on:'' @ ''\<newline>'' @ '' '' @
                          join ''\<newline>'' (map (\<lambda>d. '' -> '' @ name d) missing))))"
proof -
  note cm = checkMissing_Some[OF assms(2,3)]
  have "validate (pre @ f # post) (pre @ f # post) \<noteq> None"
    using cm by (simp add: validate_None)
  then have 1: "\<exists>e. ServiceModule_from entries = Inl e"
    by (auto simp: ServiceModule_from_def ServiceModule_new_def assms(1))
  have 2: "ServiceModule_from entries =
              Inl (Error (name (provides f) @ '' will fail because it depends on:'' @ ''\<newline>'' @ '' '' @
                          join ''\<newline>'' (map (\<lambda>d. '' -> '' @ name d) missing)))"
    if "validate (pre @ f # post) pre = None" "checkRecursiveDependencies f = None"
    using that cm
    by (simp add: ServiceModule_from_def ServiceModule_new_def assms(1) validate_append)
  from 1 2 show ?thesis by blast
qed

theorem missing_dependencies_rejected_witness:
  "ServiceModule_from [Factory MigrationFactory, Factory AppFactory, Factory SelfFactory] =
     Inl (Error ''App will fail because it depends on:\<newline>  -> Config\<newline> -> Logger'')"
proof -
  let ?entries = "[Factory MigrationFactory, Factory AppFactory, Factory SelfFactory]"
  have 1: "map snd (byKey (flatten ?entries)) = [MigrationFactory] @ AppFactory # [SelfFactory]"
    by (simp add: eval_defs Migration_def MigrationFactory_def)
  have 2: "filter (\<lambda>d. \<not> isRegistered d ([MigrationFactory] @ AppFactory # [SelfFactory]))
             (dependsOn AppFactory) = [Config, Logger]"
    by (simp add: eval_defs Migration_def MigrationFactory_def)
  have 3: "validate ([MigrationFactory] @ AppFactory # [SelfFactory]) [MigrationFactory] = None"
    by (simp add: eval_defs Migration_def MigrationFactory_def)
  have 4: "checkRecursiveDependencies AppFactory = None"
    by (simp add: eval_defs)
  have 5: "name (provides AppFactory) = ''App''" "name Logger = ''Logger''" "name Config = ''Config''"
    by (simp_all add: sample_defs)
  show ?thesis
    using missing_dependencies_rejected[OF 1 2] 3 4 by (simp add: 5)
qed

text \<open>
  \<^bold>\<open>C4\<close> says that the error names the self-dependent factory. Again the first violation
  in list order wins: here \<open>SelfFactory\<close> depends on itself, and the error is the missing
  dependency of \<open>LoggerFactory\<close>, which comes first.
\<close>

theorem self_dependency_counterexample:
  "map snd (byKey (flatten [Factory LoggerFactory, Factory SelfFactory])) = [LoggerFactory, SelfFactory] \<and>
   list_ex (\<lambda>d. key_ref d = key_ref (provides SelfFactory)) (dependsOn SelfFactory) \<and>
   ServiceModule_from [Factory LoggerFactory, Factory SelfFactory] =
     Inl (Error ''Logger will fail because it depends on:\<newline>  -> Config'') \<and>
   ServiceModule_from [Factory LoggerFactory, Factory SelfFactory] \<noteq>
     Inl (Error ''Recursive dependency detected on: Database'')"
  by (simp add: eval_defs)

text \<open>
  \<^bold>\<open>C4, amended.\<close> A factory of the deduplicated list whose \<^verbatim>\<open>dependsOn\<close> holds the very
  key object it provides makes construction fail: no module with such a factory is ever
  created. When no factory before it in the list violates an invariant, the error is
  \<^verbatim>\<open>Recursive dependency detected on: <name of the service it provides>\<close>.
\<close>

theorem self_dependency_rejected:
  assumes "map snd (byKey (flatten entries)) = pre @ f # post"
    and "\<exists>d \<in> set (dependsOn f). key_ref d = key_ref (provides f)"
  shows "(\<exists>e. ServiceModule_from entries = Inl e) \<and>
         (validate (pre @ f # post) pre = None \<longrightarrow>
            ServiceModule_from entries =
              Inl (Error (''Recursive dependency detected on: '' @ name (provides f))))"
proof -
  note cr = checkRecursive_Some[OF assms(2)]
  have "validate (pre @ f # post) (pre @ f # post) \<noteq> None"
    using cr by (simp add: validate_None)
  then have 1: "\<exists>e. ServiceModule_from entries = Inl e"
    by (auto simp: ServiceModule_from_def ServiceModule_new_def assms(1))
  have 2: "ServiceModule_from entries =
              Inl (Error (''Recursive dependency detected on: '' @ name (provides f)))"
    if "validate (pre @ f # post) pre = None"
    using that cr
    by (simp add: ServiceModule_from_def ServiceModule_new_def assms(1) validate_append)
  from 1 2 show ?thesis by blast
qed

theorem self_dependency_rejected_witness:
  "ServiceModule_from [Factory ConfigFactory, Factory SelfFactory, Factory AppFactory] =
     Inl (Error ''Recursive dependency detected on: Database'')"
proof -
  let ?entries = "[Factory ConfigFactory, Factory SelfFactory, Factory AppFactory]"
  have 1: "map snd (byKey (flatten ?entries)) = [ConfigFactory] @ SelfFactory # [AppFactory]"
    by (simp add: eval_defs)
  have 2: "\<exists>d \<in> set (dependsOn SelfFactory). key_ref d = key_ref (provides SelfFactory)"
    by (simp add: eval_defs)
  have 3: "validate ([ConfigFactory] @ SelfFactory # [AppFactory]) [ConfigFactory] = None"
    by (simp add: eval_defs)
  have 5: "name (provides SelfFactory) = ''Database''" by (simp_all add: sample_defs)
  show ?thesis
    using self_dependency_rejected[OF 1 2] 3 by (simp add: 5)
qed

text \<open>
  \<^bold>\<open>C10.\<close> The list handed to the constructor holds, for each factory of the flattened
  entries, the last factory that provides the same symbol, and nothing else.
  Construction succeeds exactly when every factory of that list passes both checks; what
  an overridden entry depends on plays no part.
\<close>

theorem validation_of_survivors_only:
  "set (map snd (byKey (flatten entries))) =
     (\<lambda>g. last (filter (isSuitable (provides g)) (flatten entries))) ` set (flatten entries) \<and>
   ((\<exists>m. ServiceModule_from entries = Inr m) \<longleftrightarrow>
     (\<forall>f \<in> set (map snd (byKey (flatten entries))).
        checkRecursiveDependencies f = None \<and>
        checkMissingDependencies f (map snd (byKey (flatten entries))) = None)) \<and>
   ((\<forall>f \<in> set (map snd (byKey (flatten entries))).
        checkRecursiveDependencies f = None \<and>
        checkMissingDependencies f (map snd (byKey (flatten entries))) = None) \<longrightarrow>
    ServiceModule_from entries = Inr (ServiceModule (map snd (byKey (flatten entries)))))"
proof -
  let ?fs = "map snd (byKey (flatten entries))"
  have 1: "set ?fs = (\<lambda>g. last (filter (isSuitable (provides g)) (flatten entries))) ` set (flatten entries)"
    by (rule set_survivors)
  have 2: "(\<exists>m. ServiceModule_from entries = Inr m) \<longleftrightarrow> validate ?fs ?fs = None"
    by (auto simp: ServiceModule_from_def ServiceModule_new_def split: option.splits)
  have 3: "validate ?fs ?fs = None \<Longrightarrow> ServiceModule_from entries = Inr (ServiceModule ?fs)"
    by (simp add: ServiceModule_from_def ServiceModule_new_def)
  show ?thesis
    unfolding 2 using 1 3 unfolding validate_None by blast
qed

theorem validation_of_survivors_only_witness:
  "checkRecursiveDependencies BadConfig \<noteq> None \<and>
   checkMissingDependencies BadConfig [BadConfig, ConfigFactory] \<noteq> None \<and>
   ServiceModule_from [Factory BadConfig, Factory ConfigFactory] = Inr (ServiceModule [ConfigFactory])"
proof -
  let ?entries = "[Factory BadConfig, Factory ConfigFactory]"
  have 1: "map snd (byKey (flatten ?entries)) = [ConfigFactory]"
    by (simp add: eval_defs)
  have 2: "checkRecursiveDependencies ConfigFactory = None"
    "checkMissingDependencies ConfigFactory [ConfigFactory] = None"
    by (simp_all add: eval_defs)
  have 3: "checkRecursiveDependencies BadConfig \<noteq> None"
    "checkMissingDependencies BadConfig [BadConfig, ConfigFactory] \<noteq> None"
    by (simp_all add: eval_defs)
  show ?thesis
    using validation_of_survivors_only[of ?entries] 2 3 by (simp add: 1)
qed

section \<open>Facts about resolution\<close>

lemma run_append:
  "run (as @ bs) t w = (case run as t w of Some (t', w') \<Rightarrow> run bs t' w' | None \<Rightarrow> None)"
  by (induction as arbitrary: t w) (auto split: option.splits)

lemma work_initialize: "work (fst (initialize f vs w)) \<le> 1"
  by (auto simp: initialize_def split: lifetime.splits prod.splits sum.splits)

lemma sum_list_work_update:
  "i < length cs \<Longrightarrow> work c' < work (cs ! i) \<Longrightarrow>
   sum_list (map work (cs[i := c'])) < sum_list (map work cs)"
proof (induction cs arbitrary: i)
  case Nil
  then show ?case by simp
next
  case (Cons x xs)
  then show ?case by (cases i) auto
qed

lemma act_work: "act a t w = Some (t', w') \<Longrightarrow> work t' < work t"
proof (induction a arbitrary: t w t' w')
  case Resume
  then show ?case
  proof (cases t)
    case (Await f cs)
    with Resume obtain vs where "initialize f vs w = (t', w')"
      by (auto split: option.splits)
    with work_initialize[of f vs w] Await show ?thesis by simp
  qed auto
next
  case (Reject i)
  then show ?case
    by (cases t) (auto split: if_splits task.splits)
next
  case (Child i a)
  show ?case
  proof (cases t)
    case (Await f cs)
    with Child.prems obtain c' where i: "i < length cs" and a: "act a (cs ! i) w = Some (c', w')"
      and t': "t' = Await f (cs[i := c'])"
      by (auto split: if_splits option.splits)
    from Child.IH[OF a] i show ?thesis
      by (simp add: Await t' sum_list_work_update)
  next
    case (Failed e cs)
    with Child.prems obtain c' where i: "i < length cs" and a: "act a (cs ! i) w = Some (c', w')"
      and t': "t' = Failed e (cs[i := c'])"
      by (auto split: if_splits option.splits)
    from Child.IH[OF a] i show ?thesis
      by (simp add: Failed t' sum_list_work_update)
  qed (use Child.prems in auto)
qed

lemma run_work: "run sched t w = Some (t', w') \<Longrightarrow> length sched + work t' \<le> work t"
proof (induction sched arbitrary: t w)
  case Nil
  then show ?case by simp
next
  case (Cons a sched)
  then obtain t1 w1 where a: "act a t w = Some (t1, w1)" and r: "run sched t1 w1 = Some (t', w')"
    by (auto split: option.splits)
  from Cons.IH[OF r] act_work[OF a] show ?case by simp
qed

lemma fulfilled_Some: "fulfilled cs = Some vs \<longleftrightarrow> cs = map Done vs"
proof (induction cs arbitrary: vs)
  case Nil
  then show ?case by (auto simp: fulfilled_def)
next
  case (Cons c cs)
  have "fulfilled (c # cs) = (case c of Done v \<Rightarrow> map_option ((#) v) (fulfilled cs) | _ \<Rightarrow> None)"
    by (auto simp: fulfilled_def split: task.splits option.splits)
  with Cons show ?case
    by (cases vs) (auto split: task.splits)
qed

lemma progress: "settled t = None \<Longrightarrow> \<exists>a r. act a t w = Some r"
proof (induction t)
  case (Await f cs)
  show ?case
  proof (cases "fulfilled cs")
    case (Some vs)
    then have "act Resume (Await f cs) w = Some (initialize f vs w)" by simp
    then show ?thesis by blast
  next
    case None
    then have "\<exists>c \<in> set cs. \<forall>v. c \<noteq> Done v"
      by (induction cs) (auto simp: fulfilled_def split: task.splits option.splits)
    then obtain i where i: "i < length cs" and nd: "\<forall>v. cs ! i \<noteq> Done v"
      by (metis in_set_conv_nth)
    show ?thesis
    proof (cases "settled (cs ! i)")
      case None
      from Await.IH[OF _ None] i obtain a r where "act a (cs ! i) w = Some r"
        using nth_mem by blast
      then have "act (Child i a) (Await f cs) w = Some (Await f (cs[i := fst r]), snd r)"
        using i by (cases r) simp
      then show ?thesis by blast
    next
      case (Some r)
      with nd obtain e bg where "cs ! i = Failed e bg"
        by (cases "cs ! i") auto
      then have "act (Reject i) (Await f cs) w = Some (Failed e cs, w)"
        using i by simp
      then show ?thesis by blast
    qed
  qed
next
  case (Storing c v)
  have "act Resume (Storing c v) w = Some (Done v, w\<lparr>instances := (instances w)(c := v)\<rparr>)" by simp
  then show ?case by blast
qed auto

lemma those_map_mono:
  assumes "\<And>x y. x \<in> set xs \<Longrightarrow> f x = Some y \<Longrightarrow> g x = Some y"
  shows "those (map f xs) = Some ys \<Longrightarrow> those (map g xs) = Some ys"
  using assms
proof (induction xs arbitrary: ys)
  case Nil
  then show ?case by simp
next
  case (Cons x xs)
  then show ?case by (auto split: option.splits)
qed

lemma get_Suc: "get n m K = Some t \<Longrightarrow> get (Suc n) m K = Some t"
proof (induction n arbitrary: K t)
  case 0
  then show ?case by simp
next
  case (Suc n)
  show ?case
  proof (cases "find (isSuitable K) (factories m)")
    case None
    with Suc.prems show ?thesis by simp
  next
    case (Some f)
    with Suc.prems obtain cs where cs: "those (map (get n m) (dependsOn f)) = Some cs"
      and t: "t = Await f cs" by auto
    have "those (map (get (Suc n) m) (dependsOn f)) = Some cs"
      using cs by (rule those_map_mono[rotated]) (rule Suc.IH)
    then show ?thesis using Some t by simp
  qed
qed

lemma get_mono: "n \<le> n' \<Longrightarrow> get n m K = Some t \<Longrightarrow> get n' m K = Some t"
proof (induction n' rule: dec_induct)
  case base
  then show ?case .
next
  case (step k)
  then show ?case using get_Suc by blast
qed

lemma those_map_total:
  "(\<And>x. x \<in> set xs \<Longrightarrow> \<exists>y. f x = Some y) \<Longrightarrow> \<exists>ys. those (map f xs) = Some ys"
proof (induction xs)
  case Nil
  then show ?case by simp
next
  case (Cons x xs)
  then show ?case by (auto split: option.splits)
qed

lemma uniform_fuel:
  "(\<And>d. d \<in> set ds \<Longrightarrow> \<exists>n t. get n m d = Some t) \<Longrightarrow>
   \<exists>N. \<forall>d \<in> set ds. \<exists>t. get N m d = Some t"
proof (induction ds)
  case Nil
  then show ?case by simp
next
  case (Cons d ds)
  then obtain N where N: "\<forall>d \<in> set ds. \<exists>t. get N m d = Some t" by auto
  from Cons.prems[of d] obtain n t where n: "get n m d = Some t" by auto
  have up: "\<And>k x t. get k m x = Some t \<Longrightarrow> k \<le> max n N \<Longrightarrow> \<exists>t. get (max n N) m x = Some t"
    using get_mono by blast
  have "\<forall>x \<in> set (d # ds). \<exists>t. get (max n N) m x = Some t"
  proof
    fix x assume "x \<in> set (d # ds)"
    then consider "x = d" | "x \<in> set ds" by auto
    then show "\<exists>t. get (max n N) m x = Some t"
    proof cases
      case 1
      then show ?thesis using up[OF n] by simp
    next
      case 2
      with N obtain t' where "get N m x = Some t'" by blast
      then show ?thesis using up by simp
    qed
  qed
  then show ?case ..
qed

lemma get_terminates_sym:
  assumes ac: "acyclic (dependency_graph m)"
  shows "\<forall>K. symbol K = s \<longrightarrow> (\<exists>n t. get n m K = Some t)"
proof -
  have fin: "finite (dependency_graph m)" by (simp add: dependency_graph_def)
  have wf: "wf ((dependency_graph m)\<inverse>)"
    using fin ac by (rule finite_acyclic_wf_converse)
  show ?thesis
  proof (induction s rule: wf_induct_rule[OF wf])
    case (1 s)
    show ?case
    proof (intro allI impI)
      fix K :: ServiceKey assume K: "symbol K = s"
      show "\<exists>n t. get n m K = Some t"
      proof (cases "find (isSuitable K) (factories m)")
        case None
        then have "get (Suc 0) m K =
            Some (Failed (Error (''Could not find a suitable factory for '' @ name K)) [])"
          by simp
        then show ?thesis by blast
      next
        case (Some f)
        then have f: "f \<in> set (factories m)" and sf: "symbol (provides f) = s"
          using K by (auto simp: find_Some_iff isSuitable_def)
        have each: "\<exists>n t. get n m d = Some t" if d: "d \<in> set (dependsOn f)" for d
        proof -
          have "(s, symbol d) \<in> dependency_graph m"
            using f d sf by (force simp: dependency_graph_def)
          then show ?thesis using 1 by auto
        qed
        from uniform_fuel[OF each] obtain N
          where "\<forall>d \<in> set (dependsOn f). \<exists>t. get N m d = Some t" by blast
        then obtain cs where "those (map (get N m) (dependsOn f)) = Some cs"
          using those_map_total[of "dependsOn f" "get N m"] by blast
        then have "get (Suc N) m K = Some (Await f cs)"
          using Some by simp
        then show ?thesis by blast
      qed
    qed
  qed
qed

lemma decreasing_acyclic:
  fixes r :: "(nat \<times> nat) set"
  assumes "\<forall>(a, b) \<in> r. b < a"
  shows "acyclic r"
proof -
  have "r \<subseteq> {(a, b). b < a}" using assms by auto
  moreover have "acyclic {(a::nat, b). b < a}"
  proof -
    have "{(a::nat, b). b < a} = (less_than)\<inverse>" by auto
    then show ?thesis by (simp add: wf_acyclic)
  qed
  ultimately show ?thesis by (rule acyclic_subset[rotated])
qed

text \<open>
  \<^bold>\<open>C9.\<close> In a module whose dependency graph is acyclic, a call of \<^verbatim>\<open>get(K)\<close> returns
  its promise: from some fuel on, \<open>get\<close> gives the same task \<open>t\<close>. Every schedule from
  \<open>t\<close> takes at most \<open>work t\<close> turns, and as long as the promise is not settled some turn
  is enabled: the promise settles after finitely many turns, whatever the schedule.
\<close>

theorem get_terminates:
  assumes "acyclic (dependency_graph m)"
  shows "\<exists>n t. (\<forall>n' \<ge> n. get n' m K = Some t) \<and>
           (\<forall>sched w t' w'. run sched t w = Some (t', w') \<longrightarrow>
              length sched \<le> work t \<and> (settled t' = None \<longrightarrow> (\<exists>a r. act a t' w' = Some r)))"
proof -
  from get_terminates_sym[OF assms] obtain n t where g: "get n m K = Some t" by blast
  have "\<forall>n' \<ge> n. get n' m K = Some t" using g get_mono by blast
  moreover have "\<forall>sched w t' w'. run sched t w = Some (t', w') \<longrightarrow>
              length sched \<le> work t \<and> (settled t' = None \<longrightarrow> (\<exists>a r. act a t' w' = Some r))"
    using run_work progress by fastforce
  ultimately show ?thesis by blast
qed

theorem get_terminates_witness:
  "acyclic (dependency_graph Application) \<and>
   get 3 Application App =
     Some (Await AppFactory [Await ConfigFactory [], Await LoggerFactory [Await ConfigFactory []]]) \<and>
   (\<exists>n t. (\<forall>n' \<ge> n. get n' Application App = Some t) \<and>
           (\<forall>sched w t' w'. run sched t w = Some (t', w') \<longrightarrow>
              length sched \<le> work t \<and> (settled t' = None \<longrightarrow> (\<exists>a r. act a t' w' = Some r))))"
proof -
  have 1: "acyclic (dependency_graph Application)"
    by (rule decreasing_acyclic) (simp add: dependency_graph_def Application_def sample_defs)
  have 2: "get 3 Application App =
     Some (Await AppFactory [Await ConfigFactory [], Await LoggerFactory [Await ConfigFactory []]])"
    by (simp add: numeral_3_eq_3 Application_def isSuitable_def sample_defs)
  show ?thesis using get_terminates[OF 1, of App] 1 2 by simp
qed

text \<open>
  Acyclicity is needed. Only a factory that depends on its own key is rejected at
  construction; a longer cycle passes validation, and then the synchronous part of
  \<^verbatim>\<open>get\<close> never returns its promise: no amount of fuel is enough.
\<close>

lemma cyclic_get_never_returns:
  "ServiceModule_from [Factory PingFactory, Factory PongFactory] = Inr CycleModule \<and>
   \<not> acyclic (dependency_graph CycleModule) \<and>
   (\<forall>n. get n CycleModule Ping = None \<and> get n CycleModule Pong = None)"
proof -
  have 1: "ServiceModule_from [Factory PingFactory, Factory PongFactory] = Inr CycleModule"
    by (simp add: eval_defs Ping_def Pong_def PingFactory_def PongFactory_def CycleModule_def)
  have g: "dependency_graph CycleModule = {(20, 21), (21, 20)}"
    by (simp add: dependency_graph_def Ping_def Pong_def PingFactory_def PongFactory_def
        CycleModule_def oneShot_def)
  have "(20::nat, 20::nat) \<in> {(20, 21), (21, 20)}\<^sup>+"
    by (rule trancl_into_trancl[where b = 21]) auto
  then have 2: "\<not> acyclic (dependency_graph CycleModule)"
    unfolding g acyclic_def by blast
  have 3: "get n CycleModule Ping = None \<and> get n CycleModule Pong = None" for n
  proof (induction n)
    case 0
    then show ?case by simp
  next
    case (Suc n)
    have "find (isSuitable Ping) (factories CycleModule) = Some PingFactory"
      "find (isSuitable Pong) (factories CycleModule) = Some PongFactory"
      "dependsOn PingFactory = [Pong]" "dependsOn PongFactory = [Ping]"
      by (simp_all add: isSuitable_def Ping_def Pong_def PingFactory_def PongFactory_def
          CycleModule_def oneShot_def)
    with Suc show ?case by simp
  qed
  from 1 2 3 show ?thesis by blast
qed

section \<open>Facts about the turns of the event loop\<close>

lemmas run_eval = initialize_def invoke_def fulfilled_def fresh_def initial_def
  Application_def isSuitable_def sample_defs

lemma step_effect_lift:
  assumes "step_effect A S F w S' F' w'"
    and "A \<subseteq> A2" "S \<subseteq> S2" "F \<subseteq> F2" "S'2 \<subseteq> S' \<union> S2" "F'2 \<subseteq> F' \<union> F2"
  shows "step_effect A2 S2 F2 w S'2 F'2 w'"
proof -
  from assms(1) consider
    (same) "w' = w" "S' \<subseteq> S" "F' \<subseteq> F"
  | (inv) f vs r where "f \<in> A"
      "lifetime f = OneShot \<or> (\<exists>c. lifetime f = Singleton c \<and> instances w c = Undefined)"
      "invoke f vs w = (r, w')"
      "(case r of
            Inl e \<Rightarrow> S' \<subseteq> S \<and> F' \<subseteq> insert e F
          | Inr v \<Rightarrow> F' \<subseteq> F \<and>
              (case lifetime f of
                 OneShot \<Rightarrow> S' \<subseteq> S
               | Singleton c \<Rightarrow> S' \<subseteq> insert (c, v) S))"
  | (store) c v where "(c, v) \<in> S" "w' = w\<lparr>instances := (instances w)(c := v)\<rparr>" "S' \<subseteq> S" "F' \<subseteq> F"
    unfolding step_effect_def by blast
  then show ?thesis
  proof cases
    case same
    then have "w' = w \<and> S'2 \<subseteq> S2 \<and> F'2 \<subseteq> F2" using assms(2-) by blast
    then show ?thesis unfolding step_effect_def by blast
  next
    case inv
    have "(case r of
            Inl e \<Rightarrow> S'2 \<subseteq> S2 \<and> F'2 \<subseteq> insert e F2
          | Inr v \<Rightarrow> F'2 \<subseteq> F2 \<and>
              (case lifetime f of
                 OneShot \<Rightarrow> S'2 \<subseteq> S2
               | Singleton c \<Rightarrow> S'2 \<subseteq> insert (c, v) S2))"
      using inv(4) assms(2-) by (auto split: sum.splits lifetime.splits)
    moreover have "f \<in> A2" using inv(1) assms(2) by blast
    ultimately show ?thesis unfolding step_effect_def using inv(2,3) by blast
  next
    case store
    then have "(c, v) \<in> S2 \<and> w' = w\<lparr>instances := (instances w)(c := v)\<rparr> \<and> S'2 \<subseteq> S2 \<and> F'2 \<subseteq> F2"
      using assms(2-) by blast
    then show ?thesis unfolding step_effect_def by blast
  qed
qed

lemma UN_update_subset:
  "(\<Union>c \<in> set (cs[i := c']). g c) \<subseteq> g c' \<union> (\<Union>c \<in> set cs. g c)"
  using set_update_subset_insert[of cs i c'] by auto

lemma initialize_effect:
  "initialize f vs w = (t', w') \<Longrightarrow>
   awaited t' = {} \<and> step_effect {f} {} {} w (storing t') (failures t') w'"
proof -
  assume init: "initialize f vs w = (t', w')"
  obtain r w1 where inv: "invoke f vs w = (r, w1)" by (cases "invoke f vs w")
  show ?thesis
  proof (cases "lifetime f")
    case OneShot
    show ?thesis
    proof (cases r)
      case (Inl e)
      with init inv OneShot have "t' = Failed e []" "w' = w1"
        by (auto simp: initialize_def)
      then show ?thesis
        unfolding step_effect_def using inv OneShot Inl
        by (intro conjI disjI2 disjI1 exI[of _ f] exI[of _ vs] exI[of _ r]) auto
    next
      case (Inr v)
      with init inv OneShot have "t' = Done v" "w' = w1"
        by (auto simp: initialize_def)
      then show ?thesis
        unfolding step_effect_def using inv OneShot Inr
        by (intro conjI disjI2 disjI1 exI[of _ f] exI[of _ vs] exI[of _ r]) auto
    qed
  next
    case (Singleton c)
    show ?thesis
    proof (cases "instances w c = Undefined")
      case False
      with init Singleton have "t' = Done (instances w c)" "w' = w"
        by (auto simp: initialize_def)
      then show ?thesis by (simp add: step_effect_def)
    next
      case True
      show ?thesis
      proof (cases r)
        case (Inl e)
        with init inv Singleton True have "t' = Failed e []" "w' = w1"
          by (auto simp: initialize_def)
        then show ?thesis
          unfolding step_effect_def using inv Singleton Inl True
          by (intro conjI disjI2 disjI1 exI[of _ f] exI[of _ vs] exI[of _ r]) auto
      next
        case (Inr v)
        with init inv Singleton True have "t' = Storing c v" "w' = w1"
          by (auto simp: initialize_def)
        then show ?thesis
          unfolding step_effect_def using inv Singleton Inr True
          by (intro conjI disjI2 disjI1 exI[of _ f] exI[of _ vs] exI[of _ r]) auto
      qed
    qed
  qed
qed

lemma act_effect:
  "act a t w = Some (t', w') \<Longrightarrow>
   awaited t' \<subseteq> awaited t \<and>
   step_effect (awaited t) (storing t) (failures t) w (storing t') (failures t') w'"
proof (induction a arbitrary: t w t' w')
  case Resume
  show ?case
  proof (cases t)
    case (Await f cs)
    with Resume obtain vs where "initialize f vs w = (t', w')"
      by (auto split: option.splits)
    from initialize_effect[OF this] show ?thesis
      unfolding Await by (auto elim!: step_effect_lift)
  next
    case (Storing c v)
    with Resume show ?thesis by (auto simp: step_effect_def)
  qed (use Resume in auto)
next
  case (Reject i)
  show ?case
  proof (cases t)
    case (Await f cs)
    with Reject obtain e bg where i: "i < length cs" and ci: "cs ! i = Failed e bg"
      and t': "t' = Failed e cs" and w': "w' = w"
      by (auto split: if_splits task.splits)
    have "e \<in> failures (cs ! i)" by (simp add: ci)
    then have "e \<in> (\<Union>c \<in> set cs. failures c)" using i nth_mem by blast
    then show ?thesis
      by (auto simp: Await t' w' step_effect_def)
  qed (use Reject in auto)
next
  case (Child i a)
  show ?case
  proof (cases t)
    case (Await f cs)
    with Child.prems obtain c' where i: "i < length cs" and a: "act a (cs ! i) w = Some (c', w')"
      and t': "t' = Await f (cs[i := c'])"
      by (auto split: if_splits option.splits)
    from Child.IH[OF a] have aw: "awaited c' \<subseteq> awaited (cs ! i)"
      and se: "step_effect (awaited (cs ! i)) (storing (cs ! i)) (failures (cs ! i)) w
                 (storing c') (failures c') w'" by auto
    have mem: "cs ! i \<in> set cs" using i by simp
    have 1: "awaited t' \<subseteq> awaited t"
      using UN_update_subset[of awaited cs i c'] aw mem unfolding Await t' by auto
    have 2: "step_effect (awaited t) (storing t) (failures t) w (storing t') (failures t') w'"
      using se
    proof (rule step_effect_lift)
      show "awaited (cs ! i) \<subseteq> awaited t" using mem unfolding Await by auto
      show "storing (cs ! i) \<subseteq> storing t" using mem unfolding Await by auto
      show "failures (cs ! i) \<subseteq> failures t" using mem unfolding Await by auto
      show "storing t' \<subseteq> storing c' \<union> storing t"
        using UN_update_subset[of storing cs i c'] unfolding Await t' by auto
      show "failures t' \<subseteq> failures c' \<union> failures t"
        using UN_update_subset[of failures cs i c'] unfolding Await t' by auto
    qed
    from 1 2 show ?thesis ..
  next
    case (Failed e cs)
    with Child.prems obtain c' where i: "i < length cs" and a: "act a (cs ! i) w = Some (c', w')"
      and t': "t' = Failed e (cs[i := c'])"
      by (auto split: if_splits option.splits)
    from Child.IH[OF a] have aw: "awaited c' \<subseteq> awaited (cs ! i)"
      and se: "step_effect (awaited (cs ! i)) (storing (cs ! i)) (failures (cs ! i)) w
                 (storing c') (failures c') w'" by auto
    have mem: "cs ! i \<in> set cs" using i by simp
    have 1: "awaited t' \<subseteq> awaited t"
      using UN_update_subset[of awaited cs i c'] aw mem unfolding Failed t' by auto
    have 2: "step_effect (awaited t) (storing t) (failures t) w (storing t') (failures t') w'"
      using se
    proof (rule step_effect_lift)
      show "awaited (cs ! i) \<subseteq> awaited t" using mem unfolding Failed by auto
      show "storing (cs ! i) \<subseteq> storing t" using mem unfolding Failed by auto
      show "failures (cs ! i) \<subseteq> failures t" using mem unfolding Failed by auto
      show "storing t' \<subseteq> storing c' \<union> storing t"
        using UN_update_subset[of storing cs i c'] unfolding Failed t' by auto
      show "failures t' \<subseteq> failures c' \<union> failures t"
        using UN_update_subset[of failures cs i c'] unfolding Failed t' by auto
    qed
    from 1 2 show ?thesis ..
  qed (use Child.prems in auto)
qed

lemma run_invariant:
  assumes step: "\<And>a t w t' w'. I t w \<Longrightarrow> act a t w = Some (t', w') \<Longrightarrow> I t' w'"
  shows "I t w \<Longrightarrow> run sched t w = Some (t', w') \<Longrightarrow> I t' w'"
proof (induction sched arbitrary: t w)
  case Nil
  then show ?case by simp
next
  case (Cons a sched)
  from Cons.prems(2) obtain t1 w1 where a: "act a t w = Some (t1, w1)"
    and r: "run sched t1 w1 = Some (t', w')"
    by (auto split: option.splits)
  from step[OF Cons.prems(1) a] have "I t1 w1" .
  from Cons.IH[OF this r] show ?case .
qed

lemma invoke_world:
  "invoke f vs w = (r, w') \<Longrightarrow>
   instances w' = instances w \<and>
   calls w' = calls w @ [Initialized (symbol (provides f)) vs r] \<and>
   (r, user w') = user_initialize f vs (user w)"
  by (auto simp: invoke_def split: prod.splits)

lemma run_Done: "run sched (Done v) w = Some (t', w') \<Longrightarrow> sched = [] \<and> t' = Done v \<and> w' = w"
  by (cases sched) auto

lemma act_Failed: "act a (Failed e cs) w = Some (t', w') \<Longrightarrow> \<exists>cs'. t' = Failed e cs'"
  by (cases a) (auto split: if_splits option.splits)

lemma run_Failed: "run sched (Failed e cs) w = Some (t', w') \<Longrightarrow> \<exists>cs'. t' = Failed e cs'"
proof (induction sched arbitrary: cs w)
  case Nil
  then show ?case by auto
next
  case (Cons a sched)
  then obtain t1 w1 where a: "act a (Failed e cs) w = Some (t1, w1)"
    and r: "run sched t1 w1 = Some (t', w')"
    by (auto split: option.splits)
  from act_Failed[OF a] obtain cs1 where "t1 = Failed e cs1" ..
  with Cons.IH r show ?case by blast
qed

lemma run_Storing:
  "run sched (Storing c v) w = Some (Done v', w') \<Longrightarrow>
   sched = [Resume] \<and> v' = v \<and> w' = w\<lparr>instances := (instances w)(c := v)\<rparr>"
proof (cases sched)
  case Nil
  assume "run sched (Storing c v) w = Some (Done v', w')"
  with Nil show ?thesis by simp
next
  case (Cons a rest)
  assume r: "run sched (Storing c v) w = Some (Done v', w')"
  with Cons have a: "a = Resume" by (cases a) auto
  with r Cons have "run rest (Done v) (w\<lparr>instances := (instances w)(c := v)\<rparr>) = Some (Done v', w')"
    by simp
  from run_Done[OF this] a Cons show ?thesis by simp
qed

lemma fulfilled_run:
  "run sched (Await f cs0) w = Some (Done v, w') \<Longrightarrow>
   \<exists>steps vs w1.
     run (map (\<lambda>(i, a). Child i a) steps) (Await f cs0) w = Some (Await f (map Done vs), w1) \<and>
     length vs = length cs0 \<and>
     ((sched = map (\<lambda>(i, a). Child i a) steps @ [Resume] \<and> initialize f vs w1 = (Done v, w')) \<or>
      (\<exists>c w2. sched = map (\<lambda>(i, a). Child i a) steps @ [Resume, Resume] \<and>
               initialize f vs w1 = (Storing c v, w2) \<and>
               w' = w2\<lparr>instances := (instances w2)(c := v)\<rparr>))"
proof (induction sched arbitrary: cs0 w)
  case Nil
  then show ?case by simp
next
  case (Cons a sched)
  from Cons.prems obtain t1 w1 where a: "act a (Await f cs0) w = Some (t1, w1)"
    and r: "run sched t1 w1 = Some (Done v, w')"
    by (auto split: option.splits)
  show ?case
  proof (cases a)
    case Resume
    with a obtain vs where ful: "fulfilled cs0 = Some vs" and init: "initialize f vs w = (t1, w1)"
      by (auto split: option.splits)
    from ful have cs0: "cs0 = map Done vs" by (simp add: fulfilled_Some)
    have pre: "run (map (\<lambda>(i, a). Child i a) []) (Await f cs0) w = Some (Await f (map Done vs), w)"
      by (simp add: cs0)
    have len: "length vs = length cs0" by (simp add: cs0)
    show ?thesis
    proof (cases t1)
      case (Await g cs)
      with init show ?thesis
        by (auto simp: initialize_def split: lifetime.splits prod.splits sum.splits if_splits)
    next
      case (Storing c v0)
      from run_Storing[OF r[unfolded Storing]]
      have "sched = [Resume]" "v = v0" "w' = w1\<lparr>instances := (instances w1)(c := v0)\<rparr>" by auto
      with init Storing Resume
      have "\<exists>c w2. a # sched = map (\<lambda>(i, a). Child i a) [] @ [Resume, Resume] \<and>
               initialize f vs w = (Storing c v, w2) \<and>
               w' = w2\<lparr>instances := (instances w2)(c := v)\<rparr>"
        by auto
      with pre len show ?thesis by blast
    next
      case (Done v0)
      from run_Done[OF r[unfolded Done]] have "sched = []" "v = v0" "w' = w1" by auto
      with init Done Resume
      have "a # sched = map (\<lambda>(i, a). Child i a) [] @ [Resume] \<and> initialize f vs w = (Done v, w')"
        by auto
      with pre len show ?thesis by blast
    next
      case (Failed e cs)
      from run_Failed[OF r[unfolded Failed]] show ?thesis by simp
    qed
  next
    case (Reject i)
    with a obtain e where "t1 = Failed e cs0"
      by (auto split: if_splits task.splits)
    with run_Failed r show ?thesis by blast
  next
    case (Child i b)
    with a obtain c' where i: "i < length cs0" and b: "act b (cs0 ! i) w = Some (c', w1)"
      and t1: "t1 = Await f (cs0[i := c'])"
      by (auto split: if_splits option.splits)
    from Cons.IH[OF r[unfolded t1]] obtain steps vs w2 where
      pre: "run (map (\<lambda>(i, a). Child i a) steps) (Await f (cs0[i := c'])) w1 = Some (Await f (map Done vs), w2)"
      and len: "length vs = length (cs0[i := c'])"
      and fin: "(sched = map (\<lambda>(i, a). Child i a) steps @ [Resume] \<and> initialize f vs w2 = (Done v, w')) \<or>
      (\<exists>c w3. sched = map (\<lambda>(i, a). Child i a) steps @ [Resume, Resume] \<and>
               initialize f vs w2 = (Storing c v, w3) \<and>
               w' = w3\<lparr>instances := (instances w3)(c := v)\<rparr>)"
      by blast
    have pre': "run (map (\<lambda>(i, a). Child i a) ((i, b) # steps)) (Await f cs0) w = Some (Await f (map Done vs), w2)"
      using pre i b by simp
    have len': "length vs = length cs0" using len by simp
    have fin': "(a # sched = map (\<lambda>(i, a). Child i a) ((i, b) # steps) @ [Resume] \<and> initialize f vs w2 = (Done v, w')) \<or>
      (\<exists>c w3. a # sched = map (\<lambda>(i, a). Child i a) ((i, b) # steps) @ [Resume, Resume] \<and>
               initialize f vs w2 = (Storing c v, w3) \<and>
               w' = w3\<lparr>instances := (instances w3)(c := v)\<rparr>)"
      using fin Child by auto
    from pre' len' fin' show ?thesis by blast
  qed
qed

lemma isSuitable_provides:
  "find (isSuitable d) fs = Some g \<Longrightarrow> find (isSuitable (provides g)) fs = Some g"
proof -
  assume a: "find (isSuitable d) fs = Some g"
  then have "symbol (provides g) = symbol d" by (auto simp: find_Some_iff isSuitable_def)
  then have "isSuitable (provides g) = (isSuitable d :: 'a ServiceFactory \<Rightarrow> bool)"
    by (intro ext) (simp add: isSuitable_def)
  with a show ?thesis by simp
qed

lemma those_map_set:
  "those (map f xs) = Some ys \<Longrightarrow> y \<in> set ys \<Longrightarrow> \<exists>x \<in> set xs. f x = Some y"
proof (induction xs arbitrary: ys)
  case Nil
  then show ?case by simp
next
  case (Cons x xs)
  then show ?case by (auto split: option.splits)
qed

lemma those_map_length: "those (map f xs) = Some ys \<Longrightarrow> length ys = length xs"
proof (induction xs arbitrary: ys)
  case Nil
  then show ?case by simp
next
  case (Cons x xs)
  then show ?case by (auto split: option.splits)
qed

lemma those_map_nth:
  "those (map f xs) = Some ys \<Longrightarrow> i < length xs \<Longrightarrow> f (xs ! i) = Some (ys ! i)"
proof (induction xs arbitrary: ys i)
  case Nil
  then show ?case by simp
next
  case (Cons x xs)
  then show ?case by (cases i) (auto split: option.splits)
qed

lemma get_tree:
  "get n m K = Some t \<Longrightarrow>
   (\<forall>g \<in> awaited t. find (isSuitable (provides g)) (factories m) = Some g) \<and> storing t = {}"
proof (induction n arbitrary: K t)
  case 0
  then show ?case by simp
next
  case (Suc n)
  show ?case
  proof (cases "find (isSuitable K) (factories m)")
    case None
    with Suc.prems show ?thesis by auto
  next
    case (Some f)
    with Suc.prems obtain cs where cs: "those (map (get n m) (dependsOn f)) = Some cs"
      and t: "t = Await f cs" by auto
    have each: "(\<forall>g \<in> awaited c. find (isSuitable (provides g)) (factories m) = Some g) \<and> storing c = {}"
      if "c \<in> set cs" for c
      using those_map_set[OF cs that] Suc.IH by blast
    show ?thesis
      using each isSuitable_provides[OF Some] by (auto simp: t)
  qed
qed

lemma get_no_failures:
  assumes valid: "\<forall>f \<in> set (factories m). \<forall>d \<in> set (dependsOn f). isRegistered d (factories m)"
  shows "isRegistered K (factories m) \<Longrightarrow> get n m K = Some t \<Longrightarrow> failures t = {}"
proof (induction n arbitrary: K t)
  case 0
  then show ?case by simp
next
  case (Suc n)
  from Suc.prems(1) have "find (isSuitable K) (factories m) \<noteq> None"
    by (auto simp: isRegistered_def list_ex_iff find_None_iff isSuitable_def)
  then obtain f where Some: "find (isSuitable K) (factories m) = Some f" by blast
  with Suc.prems obtain cs where cs: "those (map (get n m) (dependsOn f)) = Some cs"
    and t: "t = Await f cs" by auto
  have f: "f \<in> set (factories m)" using Some by (auto simp: find_Some_iff)
  have "failures c = {}" if "c \<in> set cs" for c
  proof -
    from those_map_set[OF cs that] obtain d where "d \<in> set (dependsOn f)" "get n m d = Some c"
      by blast
    with valid f Suc.IH show ?thesis by blast
  qed
  then show ?case by (simp add: t)
qed

lemma get_Await:
  "find (isSuitable K) (factories m) = Some f \<Longrightarrow> get n m K = Some t \<Longrightarrow> \<exists>cs. t = Await f cs"
  by (cases n) auto

lemma awaited_active:
  assumes "get n m K = Some t" and "find (isSuitable K) (factories m) = Some f"
    and "g \<in> awaited t" and "symbol (provides g) = symbol K"
  shows "g = f"
proof -
  from get_tree[OF assms(1)] assms(3)
  have "find (isSuitable (provides g)) (factories m) = Some g" by blast
  moreover have "isSuitable (provides g) = (isSuitable K :: 'a ServiceFactory \<Rightarrow> bool)"
    using assms(4) by (intro ext) (simp add: isSuitable_def)
  ultimately show ?thesis using assms(2) by simp
qed

lemma cached_step:
  assumes v: "v \<noteq> Undefined"
    and inv: "instances w c = v \<and> (\<forall>v'. (c, v') \<notin> storing t) \<and>
         (\<forall>g \<in> awaited t. symbol (provides g) = k \<longrightarrow> lifetime g = Singleton c) \<and>
         invocations k w = L"
    and a: "act a t w = Some (t', w')"
  shows "instances w' c = v \<and> (\<forall>v'. (c, v') \<notin> storing t') \<and>
         (\<forall>g \<in> awaited t'. symbol (provides g) = k \<longrightarrow> lifetime g = Singleton c) \<and>
         invocations k w' = L"
proof -
  from act_effect[OF a] have aw: "awaited t' \<subseteq> awaited t"
    and se: "step_effect (awaited t) (storing t) (failures t) w (storing t') (failures t') w'"
    by auto
  from se consider
    (same) "w' = w" "storing t' \<subseteq> storing t"
  | (inv) f vs r where "f \<in> awaited t"
      "lifetime f = OneShot \<or> (\<exists>c. lifetime f = Singleton c \<and> instances w c = Undefined)"
      "invoke f vs w = (r, w')"
      "(case r of
            Inl e \<Rightarrow> storing t' \<subseteq> storing t \<and> failures t' \<subseteq> insert e (failures t)
          | Inr v \<Rightarrow> failures t' \<subseteq> failures t \<and>
              (case lifetime f of
                 OneShot \<Rightarrow> storing t' \<subseteq> storing t
               | Singleton c \<Rightarrow> storing t' \<subseteq> insert (c, v) (storing t)))"
  | (store) c' v' where "(c', v') \<in> storing t" "w' = w\<lparr>instances := (instances w)(c' := v')\<rparr>"
      "storing t' \<subseteq> storing t"
    unfolding step_effect_def by blast
  then show ?thesis
  proof cases
    case same
    with inv aw show ?thesis by blast
  next
    case inv': inv
    have nk: "symbol (provides f) \<noteq> k"
    proof
      assume "symbol (provides f) = k"
      with inv inv'(1) have "lifetime f = Singleton c" by blast
      with inv'(2) inv v show False by auto
    qed
    from invoke_world[OF inv'(3)] have iw: "instances w' = instances w"
      and cw: "calls w' = calls w @ [Initialized (symbol (provides f)) vs r]" by auto
    have 1: "instances w' c = v" using iw inv by simp
    have 2: "invocations k w' = L" using cw nk inv by (simp add: invocations_def)
    have 3: "\<forall>v'. (c, v') \<notin> storing t'"
    proof (cases "lifetime f")
      case OneShot
      with inv'(4) have "storing t' \<subseteq> storing t" by (auto split: sum.splits)
      with inv show ?thesis by blast
    next
      case (Singleton c')
      with inv'(2) have "instances w c' = Undefined" by auto
      with inv v have "c' \<noteq> c" by auto
      moreover from inv'(4) Singleton have "storing t' \<subseteq> storing t \<or> (\<exists>x. storing t' \<subseteq> insert (c', x) (storing t))"
        by (auto split: sum.splits)
      ultimately show ?thesis using inv by blast
    qed
    from 1 2 3 inv aw show ?thesis by blast
  next
    case store
    with inv have "c' \<noteq> c" by auto
    with store inv aw show ?thesis by (auto simp: invocations_def)
  qed
qed

lemma cached_run:
  assumes v: "v \<noteq> Undefined"
    and inv: "instances w c = v" "\<forall>v'. (c, v') \<notin> storing t"
         "\<forall>g \<in> awaited t. symbol (provides g) = k \<longrightarrow> lifetime g = Singleton c"
    and r: "run sched t w = Some (t', w')"
  shows "instances w' c = v \<and> (\<forall>v'. (c, v') \<notin> storing t') \<and> invocations k w' = invocations k w"
proof -
  let ?I = "\<lambda>t w'. instances w' c = v \<and> (\<forall>v'. (c, v') \<notin> storing t) \<and>
         (\<forall>g \<in> awaited t. symbol (provides g) = k \<longrightarrow> lifetime g = Singleton c) \<and>
         invocations k w' = invocations k w"
  have "?I t' w'"
  proof (rule run_invariant[where I = ?I, OF _ _ r])
    show "?I t w" using inv by simp
  next
    fix a t w1 t' w1'
    assume "?I t w1" "act a t w1 = Some (t', w1')"
    then show "?I t' w1'" by (rule cached_step[OF v])
  qed
  then show ?thesis by blast
qed

lemma first_resolution_caches:
  assumes "lifetime f = Singleton c" and "run sched (Await f cs) w = Some (Done v, w')"
  shows "instances w' c = v"
proof -
  from fulfilled_run[OF assms(2)] obtain vs w1 where
    "initialize f vs w1 = (Done v, w') \<or>
     (\<exists>c w2. initialize f vs w1 = (Storing c v, w2) \<and> w' = w2\<lparr>instances := (instances w2)(c := v)\<rparr>)"
    by blast
  then show ?thesis
    using assms(1)
    by (auto simp: initialize_def split: prod.splits sum.splits if_splits)
qed

lemma cached_resolution:
  assumes f: "find (isSuitable K) (factories m) = Some f" "lifetime f = Singleton c"
    and t: "get n m K = Some t"
    and v: "instances w c = v" "v \<noteq> Undefined"
    and r: "run sched t w = Some (t', w')"
  shows "instances w' c = v \<and> invocations (symbol K) w' = invocations (symbol K) w \<and>
         (\<forall>v'. settled t' = Some (Inr v') \<longrightarrow> v' = v)"
proof -
  have st: "\<forall>v'. (c, v') \<notin> storing t" using get_tree[OF t] by simp
  have aw: "\<forall>g \<in> awaited t. symbol (provides g) = symbol K \<longrightarrow> lifetime g = Singleton c"
    using awaited_active[OF t f(1)] f(2) by blast
  from cached_run[OF v(2) v(1) st aw r]
  have 1: "instances w' c = v" and 2: "invocations (symbol K) w' = invocations (symbol K) w"
    by auto
  have 3: "v' = v" if s: "settled t' = Some (Inr v')" for v'
  proof -
    from s have t': "t' = Done v'" by (cases t') auto
    from get_Await[OF f(1) t] obtain cs where tc: "t = Await f cs" ..
    from fulfilled_run[OF r[unfolded t' tc]] obtain steps vs w1 where
      pre: "run (map (\<lambda>(i, a). Child i a) steps) (Await f cs) w = Some (Await f (map Done vs), w1)"
      and fin: "initialize f vs w1 = (Done v', w') \<or>
        (\<exists>c w2. initialize f vs w1 = (Storing c v', w2) \<and> w' = w2\<lparr>instances := (instances w2)(c := v')\<rparr>)"
      by blast
    from cached_run[OF v(2) v(1) st aw pre[folded tc]] have "instances w1 c = v" by simp
    with fin f(2) v(2) show ?thesis
      by (auto simp: initialize_def split: prod.splits sum.splits if_splits)
  qed
  from 1 2 3 show ?thesis by blast
qed

lemma app_find: "find (isSuitable App) (factories Application) = Some AppFactory"
  by (simp add: Application_def isSuitable_def sample_defs)

lemma AppTask_get: "get (Suc 2) Application App = Some AppTask"
  by (simp add: AppTask_def Application_def isSuitable_def sample_defs eval_nat_numeral)

lemma AppTask_run: "run AppSchedule AppTask initial = Some (Done (Obj 3), AppWorld)"
  by (simp add: AppTask_def AppSchedule_def AppWorld_def run_eval eval_nat_numeral)

text \<open>
  \<^bold>\<open>C1\<close> says that every later call returns the cached value without calling the user's
  initializer again. The singleton takes \<^verbatim>\<open>undefined\<close> for an empty cache, so when the
  initializer returns \<^verbatim>\<open>undefined\<close> nothing is cached: two resolutions in sequence call
  the initializer twice.
\<close>

theorem singleton_undefined_counterexample:
  "get 1 MigrationModule Migration = Some (Await MigrationFactory []) \<and>
   run [Resume, Resume] (Await MigrationFactory []) initial =
     Some (Done Undefined,
           \<lparr>instances = (\<lambda>c. Undefined), user = 1,
            calls = [Initialized 6 [] (Inr Undefined)]\<rparr>) \<and>
   run [Resume, Resume] (Await MigrationFactory [])
       \<lparr>instances = (\<lambda>c. Undefined), user = 1, calls = [Initialized 6 [] (Inr Undefined)]\<rparr> =
     Some (Done Undefined,
           \<lparr>instances = (\<lambda>c. Undefined), user = 2,
            calls = [Initialized 6 [] (Inr Undefined), Initialized 6 [] (Inr Undefined)]\<rparr>)"
  by (simp add: MigrationModule_def Migration_def MigrationFactory_def singleton_def isSuitable_def
      run_eval eval_nat_numeral fun_upd_idem)

text \<open>
  \<^bold>\<open>C1, amended.\<close> For a singleton factory with an empty cache, a call of its
  \<^verbatim>\<open>initialize\<close> that nothing interleaves with calls the user's initializer once and
  caches what it returns. While the cache holds a value other than \<^verbatim>\<open>undefined\<close>, a call
  returns that value and changes nothing: the user's initializer is not called. So when a
  resolution of the singleton's key is fulfilled with a value other than \<^verbatim>\<open>undefined\<close>,
  that value is cached, and a resolution after it that is fulfilled returns the same
  instance without a call of the singleton's initializer.
\<close>

theorem singleton_returns_cached_instance:
  assumes "lifetime f = Singleton c"
  shows
    "(instances w c = Undefined \<and> user_initialize f args (user w) = (Inr v, u') \<longrightarrow>
        run [Resume, Resume] (Await f (map Done args)) w =
          Some (Done v,
                w\<lparr>user := u',
                  calls := calls w @ [Initialized (symbol (provides f)) args (Inr v)],
                  instances := (instances w)(c := v)\<rparr>)) \<and>
     (instances w2 c \<noteq> Undefined \<longrightarrow>
        run [Resume] (Await f (map Done args2)) w2 = Some (Done (instances w2 c), w2)) \<and>
     (find (isSuitable K) (factories m) = Some f \<and> get n m K = Some t \<and>
      run sched t w3 = Some (Done v3, w4) \<and> v3 \<noteq> Undefined \<and>
      run sched' t w4 = Some (Done v5, w5) \<longrightarrow>
        instances w4 c = v3 \<and> v5 = v3 \<and> instances w5 c = v3 \<and>
        invocations (symbol K) w5 = invocations (symbol K) w4)"
proof (intro conjI impI)
  have ful: "fulfilled (map Done xs) = Some xs" for xs :: "val list"
    by (simp add: fulfilled_Some)
  {
    assume "instances w c = Undefined \<and> user_initialize f args (user w) = (Inr v, u')"
    then show "run [Resume, Resume] (Await f (map Done args)) w =
          Some (Done v,
                w\<lparr>user := u',
                  calls := calls w @ [Initialized (symbol (provides f)) args (Inr v)],
                  instances := (instances w)(c := v)\<rparr>)"
      using assms by (simp add: ful initialize_def invoke_def)
  }
  {
    assume "instances w2 c \<noteq> Undefined"
    then show "run [Resume] (Await f (map Done args2)) w2 = Some (Done (instances w2 c), w2)"
      using assms by (simp add: ful initialize_def)
  }
  assume a: "find (isSuitable K) (factories m) = Some f \<and> get n m K = Some t \<and>
      run sched t w3 = Some (Done v3, w4) \<and> v3 \<noteq> Undefined \<and>
      run sched' t w4 = Some (Done v5, w5)"
  then have f: "find (isSuitable K) (factories m) = Some f" and t: "get n m K = Some t"
    and r1: "run sched t w3 = Some (Done v3, w4)" and v3: "v3 \<noteq> Undefined"
    and r2: "run sched' t w4 = Some (Done v5, w5)" by auto
  from get_Await[OF f t] obtain cs where tc: "t = Await f cs" ..
  from first_resolution_caches[OF assms r1[unfolded tc]] show i4: "instances w4 c = v3" .
  from cached_resolution[OF f assms t i4 v3 r2]
  show "v5 = v3" "instances w5 c = v3" "invocations (symbol K) w5 = invocations (symbol K) w4"
    by auto
qed

theorem singleton_returns_cached_instance_witness:
  "run [Resume, Resume] (Await ConfigFactory (map Done [])) initial =
     Some (Done (Obj 0),
           initial\<lparr>user := 1,
                   calls := calls initial @ [Initialized (symbol (provides ConfigFactory)) [] (Inr (Obj 0))],
                   instances := (instances initial)(0 := Obj 0)\<rparr>) \<and>
   run [Resume] (Await ConfigFactory (map Done [])) AppWorld = Some (Done (instances AppWorld 0), AppWorld) \<and>
   instances AppWorld 0 = Obj 1 \<and>
   run [Child 0 Resume, Child 0 Resume, Resume, Resume] (Await LoggerFactory [Await ConfigFactory []]) initial =
     Some (Done (Obj 1),
           \<lparr>instances = (\<lambda>c. Undefined)(0 := Obj 0, 1 := Obj 1), user = 2,
            calls = [Initialized 0 [] (Inr (Obj 0)), Initialized 1 [Obj 0] (Inr (Obj 1))]\<rparr>) \<and>
   run [Child 0 Resume, Resume] (Await LoggerFactory [Await ConfigFactory []])
       \<lparr>instances = (\<lambda>c. Undefined)(0 := Obj 0, 1 := Obj 1), user = 2,
        calls = [Initialized 0 [] (Inr (Obj 0)), Initialized 1 [Obj 0] (Inr (Obj 1))]\<rparr> =
     Some (Done (Obj 1),
           \<lparr>instances = (\<lambda>c. Undefined)(0 := Obj 0, 1 := Obj 1), user = 2,
            calls = [Initialized 0 [] (Inr (Obj 0)), Initialized 1 [Obj 0] (Inr (Obj 1))]\<rparr>)"
proof -
  let ?w1 = "\<lparr>instances = (\<lambda>c. Undefined)(0 := Obj 0, 1 := Obj 1), user = 2,
            calls = [Initialized 0 [] (Inr (Obj 0)), Initialized 1 [Obj 0] (Inr (Obj 1))]\<rparr> :: nat world"
  let ?t = "Await LoggerFactory [Await ConfigFactory []]"
  have l: "lifetime ConfigFactory = Singleton 0" "lifetime LoggerFactory = Singleton 1"
    by (simp_all add: sample_defs)
  have a: "instances initial 0 = Undefined \<and>
           user_initialize ConfigFactory [] (user initial) = (Inr (Obj 0), 1)"
    by (simp add: run_eval)
  have b: "instances AppWorld 0 \<noteq> Undefined" "instances AppWorld 0 = Obj 1"
    by (simp_all add: AppWorld_def)
  have f: "find (isSuitable Logger) (factories Application) = Some LoggerFactory"
    by (simp add: Application_def isSuitable_def sample_defs)
  have g: "get 2 Application Logger = Some ?t"
    by (simp add: Application_def isSuitable_def sample_defs eval_nat_numeral)
  have r1: "run [Child 0 Resume, Child 0 Resume, Resume, Resume] ?t initial = Some (Done (Obj 1), ?w1)"
    by (simp add: run_eval eval_nat_numeral)
  have r2: "run [Child 0 Resume, Resume] ?t ?w1 = Some (Done (Obj 1), ?w1)"
    by (simp add: run_eval eval_nat_numeral)
  show ?thesis
    using singleton_returns_cached_instance[OF l(1), of initial "[]" "Obj 0" 1 AppWorld "[]"]
      singleton_returns_cached_instance[OF l(2), where K = Logger and m = Application and n = 2
        and t = ?t and sched = "[Child 0 Resume, Child 0 Resume, Resume, Resume]" and ?w3.0 = initial
        and ?v3.0 = "Obj 1" and ?w4.0 = ?w1 and sched' = "[Child 0 Resume, Resume]" and ?v5.0 = "Obj 1"
        and ?w5.0 = ?w1]
      a b f g r1 r2
    by simp
qed

section \<open>Where a rejection comes from\<close>

lemmas job_defs = Broken_def Job_def BrokenFactory_def JobFactory_def JobModule_def JobTask_def
  JobSchedule_def JobWorld_def








lemma provenance_step:
  assumes inv: "\<exists>new. calls w = L @ new \<and>
        failures t \<subseteq> {e. \<exists>k args. Initialized k args (Inl e) \<in> set new} \<and>
        (\<forall>c. instances w c = I0 c \<or> (\<exists>k args. Initialized k args (Inr (instances w c)) \<in> set new)) \<and>
        (\<forall>c v. (c, v) \<in> storing t \<longrightarrow> (\<exists>k args. Initialized k args (Inr v) \<in> set new))"
    and a: "act a t w = Some (t', w')"
  shows "\<exists>new. calls w' = L @ new \<and>
        failures t' \<subseteq> {e. \<exists>k args. Initialized k args (Inl e) \<in> set new} \<and>
        (\<forall>c. instances w' c = I0 c \<or> (\<exists>k args. Initialized k args (Inr (instances w' c)) \<in> set new)) \<and>
        (\<forall>c v. (c, v) \<in> storing t' \<longrightarrow> (\<exists>k args. Initialized k args (Inr v) \<in> set new))"
proof -
  from inv obtain new where new: "calls w = L @ new"
    and fl: "failures t \<subseteq> {e. \<exists>k args. Initialized k args (Inl e) \<in> set new}"
    and ins: "\<forall>c. instances w c = I0 c \<or> (\<exists>k args. Initialized k args (Inr (instances w c)) \<in> set new)"
    and sto: "\<forall>c v. (c, v) \<in> storing t \<longrightarrow> (\<exists>k args. Initialized k args (Inr v) \<in> set new)"
    by blast
  from act_effect[OF a]
  have se: "step_effect (awaited t) (storing t) (failures t) w (storing t') (failures t') w'"
    by auto
  from se consider
    (same) "w' = w" "storing t' \<subseteq> storing t" "failures t' \<subseteq> failures t"
  | (inv) f vs r where "f \<in> awaited t"
      "invoke f vs w = (r, w')"
      "(case r of
            Inl e \<Rightarrow> storing t' \<subseteq> storing t \<and> failures t' \<subseteq> insert e (failures t)
          | Inr v \<Rightarrow> failures t' \<subseteq> failures t \<and>
              (case lifetime f of
                 OneShot \<Rightarrow> storing t' \<subseteq> storing t
               | Singleton c \<Rightarrow> storing t' \<subseteq> insert (c, v) (storing t)))"
  | (store) c' v' where "(c', v') \<in> storing t" "w' = w\<lparr>instances := (instances w)(c' := v')\<rparr>"
      "storing t' \<subseteq> storing t" "failures t' \<subseteq> failures t"
    unfolding step_effect_def by blast
  then show ?thesis
  proof cases
    case same
    with new fl ins sto show ?thesis by blast
  next
    case inv': inv
    let ?new = "new @ [Initialized (symbol (provides f)) vs r]"
    from invoke_world[OF inv'(2)] have iw: "instances w' = instances w"
      and cw: "calls w' = L @ ?new" using new by auto
    have up: "\<And>x. x \<in> set new \<Longrightarrow> x \<in> set ?new" by simp
    have last: "Initialized (symbol (provides f)) vs r \<in> set ?new" by simp
    have 1: "failures t' \<subseteq> {e. \<exists>k args. Initialized k args (Inl e) \<in> set ?new}"
    proof (cases r)
      case (Inl e)
      with inv'(3) have sub: "failures t' \<subseteq> insert e (failures t)" by simp
      show ?thesis
      proof
        fix x assume "x \<in> failures t'"
        with sub have "x = e \<or> x \<in> failures t" by auto
        then show "x \<in> {e. \<exists>k args. Initialized k args (Inl e) \<in> set ?new}"
        proof
          assume "x = e"
          then have "Initialized (symbol (provides f)) vs (Inl x) \<in> set ?new" using Inl by simp
          then show ?thesis by blast
        next
          assume "x \<in> failures t"
          with fl obtain k args where "Initialized k args (Inl x) \<in> set new" by blast
          then have "Initialized k args (Inl x) \<in> set ?new" by simp
          then show ?thesis by blast
        qed
      qed
    next
      case (Inr v)
      with inv'(3) have "failures t' \<subseteq> failures t" by simp
      with fl up show ?thesis by blast
    qed
    have 2: "\<forall>c. instances w' c = I0 c \<or> (\<exists>k args. Initialized k args (Inr (instances w' c)) \<in> set ?new)"
      unfolding iw using ins up by blast
    have 3: "\<forall>c v. (c, v) \<in> storing t' \<longrightarrow> (\<exists>k args. Initialized k args (Inr v) \<in> set ?new)"
    proof (cases r)
      case (Inl e)
      with inv'(3) have "storing t' \<subseteq> storing t" by simp
      with sto up show ?thesis by blast
    next
      case (Inr v)
      with inv'(3) have "storing t' \<subseteq> storing t \<or> (\<exists>c. storing t' \<subseteq> insert (c, v) (storing t))"
        by (auto split: lifetime.splits)
      then show ?thesis
      proof
        assume "storing t' \<subseteq> storing t"
        with sto up show ?thesis by blast
      next
        assume "\<exists>c. storing t' \<subseteq> insert (c, v) (storing t)"
        then obtain c where c: "storing t' \<subseteq> insert (c, v) (storing t)" ..
        show ?thesis
        proof (intro allI impI)
          fix c1 v1 assume "(c1, v1) \<in> storing t'"
          with c have "v1 = v \<or> (c1, v1) \<in> storing t" by auto
          then show "\<exists>k args. Initialized k args (Inr v1) \<in> set ?new"
          proof
            assume "v1 = v"
            with last Inr show ?thesis by blast
          next
            assume "(c1, v1) \<in> storing t"
            with sto up show ?thesis by blast
          qed
        qed
      qed
    qed
    from cw 1 2 3 show ?thesis by blast
  next
    case store
    from sto store(1) obtain k args where ka: "Initialized k args (Inr v') \<in> set new" by blast
    have "instances w' c = I0 c \<or> (\<exists>k args. Initialized k args (Inr (instances w' c)) \<in> set new)" for c
    proof (cases "c = c'")
      case True
      then have "instances w' c = v'" using store(2) by simp
      with ka show ?thesis by blast
    next
      case False
      then have "instances w' c = instances w c" using store(2) by simp
      with ins show ?thesis by simp
    qed
    then have "\<forall>c. instances w' c = I0 c \<or> (\<exists>k args. Initialized k args (Inr (instances w' c)) \<in> set new)"
      by blast
    moreover have "calls w' = L @ new" using new store(2) by simp
    ultimately show ?thesis using fl sto store(3,4) by blast
  qed
qed

lemma provenance_run:
  assumes st: "storing t = {}" and fl: "failures t = {}"
    and r: "run sched t w = Some (t', w')"
  shows "\<exists>new. calls w' = calls w @ new \<and>
        failures t' \<subseteq> {e. \<exists>k args. Initialized k args (Inl e) \<in> set new} \<and>
        (\<forall>c. instances w' c = instances w c \<or>
             (\<exists>k args. Initialized k args (Inr (instances w' c)) \<in> set new))"
proof -
  let ?I = "\<lambda>t w1. \<exists>new. calls w1 = calls w @ new \<and>
        failures t \<subseteq> {e. \<exists>k args. Initialized k args (Inl e) \<in> set new} \<and>
        (\<forall>c. instances w1 c = instances w c \<or> (\<exists>k args. Initialized k args (Inr (instances w1 c)) \<in> set new)) \<and>
        (\<forall>c v. (c, v) \<in> storing t \<longrightarrow> (\<exists>k args. Initialized k args (Inr v) \<in> set new))"
  have "?I t' w'"
  proof (rule run_invariant[where I = ?I, OF _ _ r])
    show "?I t w" using st fl by simp
  next
    fix a t w1 t' w1'
    assume "?I t w1" "act a t w1 = Some (t', w1')"
    then show "?I t' w1'" by (rule provenance_step)
  qed
  then show ?thesis by blast
qed

lemma from_valid:
  assumes "ServiceModule_from entries = Inr m"
  shows "\<forall>f \<in> set (factories m). \<forall>d \<in> set (dependsOn f). isRegistered d (factories m)"
proof -
  let ?fs = "map snd (byKey (flatten entries))"
  from assms have fs: "factories m = ?fs" by (rule from_factories)
  from assms have "validate ?fs ?fs = None"
    by (auto simp: ServiceModule_from_def ServiceModule_new_def split: option.splits)
  then have "\<forall>f \<in> set ?fs. checkMissingDependencies f ?fs = None"
    by (simp add: validate_None)
  then have "\<forall>f \<in> set ?fs. filter (\<lambda>d. \<not> isRegistered d ?fs) (dependsOn f) = []"
    by (auto simp: checkMissingDependencies_def Let_def split: if_splits)
  then show ?thesis
    unfolding fs by (auto simp: filter_empty_conv)
qed

lemma find_registered: "find (isSuitable K) fs = Some f \<Longrightarrow> isRegistered K fs"
proof -
  assume "find (isSuitable K) fs = Some f"
  then have "f \<in> set fs" "symbol (provides f) = symbol K"
    by (auto simp: find_Some_iff isSuitable_def)
  then show ?thesis by (auto simp: isRegistered_def list_ex_iff)
qed

lemma rejection_thrown:
  assumes valid: "\<forall>f \<in> set (factories m). \<forall>d \<in> set (dependsOn f). isRegistered d (factories m)"
    and reg: "isRegistered K (factories m)"
    and t: "get n m K = Some t"
    and r: "run sched t w = Some (t', w')"
    and s: "settled t' = Some (Inl e)"
  shows "\<exists>k args new. calls w' = calls w @ new \<and> Initialized k args (Inl e) \<in> set new"
proof -
  have st: "storing t = {}" using get_tree[OF t] by simp
  have fl: "failures t = {}" using get_no_failures[OF valid reg t] .
  from provenance_run[OF st fl r] obtain new where new: "calls w' = calls w @ new"
    and thr: "failures t' \<subseteq> {e. \<exists>k args. Initialized k args (Inl e) \<in> set new}"
    by blast
  from s have "e \<in> failures t'" by (cases t') auto
  with thr new show ?thesis by blast
qed


lemma finished_stuck: "finished t \<Longrightarrow> act a t w = None"
proof (induction t arbitrary: a)
  case (Failed e cs)
  show ?case
  proof (cases a)
    case (Child i b)
    show ?thesis
    proof (cases "i < length cs")
      case True
      with Failed.prems have "finished (cs ! i)" by (simp add: list_all_length)
      from Failed.IH[OF _ this] True have "act b (cs ! i) w = None"
        using nth_mem by blast
      with True Child show ?thesis by simp
    next
      case False
      with Child show ?thesis by simp
    qed
  qed simp_all
qed simp_all


lemma get_unique: "get n m K = Some t \<Longrightarrow> get n' m K = Some t' \<Longrightarrow> t = t'"
proof -
  assume a: "get n m K = Some t" and b: "get n' m K = Some t'"
  have "get (max n n') m K = Some t" using get_mono[OF _ a] by simp
  moreover have "get (max n n') m K = Some t'" using get_mono[OF _ b] by simp
  ultimately show ?thesis by simp
qed

lemma run_Failed_Nil: "run rest (Failed e []) w = Some (t', w') \<Longrightarrow> t' = Failed e [] \<and> w' = w"
proof (cases rest)
  case Nil
  assume "run rest (Failed e []) w = Some (t', w')"
  with Nil show ?thesis by simp
next
  case (Cons a as)
  assume r: "run rest (Failed e []) w = Some (t', w')"
  have "act a (Failed e []) w = None" by (cases a) simp_all
  with r Cons show ?thesis by simp
qed

lemma run_Storing_any:
  "run rest (Storing c v) w = Some (t', w') \<Longrightarrow>
   (t' = Storing c v \<and> w' = w) \<or> (t' = Done v \<and> w' = w\<lparr>instances := (instances w)(c := v)\<rparr>)"
proof (cases rest)
  case Nil
  assume "run rest (Storing c v) w = Some (t', w')"
  with Nil show ?thesis by simp
next
  case (Cons a as)
  assume r: "run rest (Storing c v) w = Some (t', w')"
  with Cons have a: "a = Resume" by (cases a) auto
  with r Cons have "run as (Done v) (w\<lparr>instances := (instances w)(c := v)\<rparr>) = Some (t', w')"
    by simp
  from run_Done[OF this] show ?thesis by simp
qed

lemma await_run:
  "run sched (Await f cs0) w = Some (t', w') \<Longrightarrow>
   \<exists>steps cs1 w1.
     run (map (\<lambda>(i, a). Child i a) steps) (Await f cs0) w = Some (Await f cs1, w1) \<and>
     length cs1 = length cs0 \<and>
     ((sched = map (\<lambda>(i, a). Child i a) steps \<and> t' = Await f cs1 \<and> w' = w1) \<or>
      (\<exists>i e bg rest. sched = map (\<lambda>(i, a). Child i a) steps @ Reject i # rest \<and>
          i < length cs1 \<and> cs1 ! i = Failed e bg \<and>
          run rest (Failed e cs1) w1 = Some (t', w')) \<or>
      (\<exists>vs rest. sched = map (\<lambda>(i, a). Child i a) steps @ Resume # rest \<and>
          cs1 = map Done vs \<and>
          run rest (fst (initialize f vs w1)) (snd (initialize f vs w1)) = Some (t', w')))"
proof (induction sched arbitrary: cs0 w)
  case Nil
  then have "run (map (\<lambda>(i, a). Child i a) []) (Await f cs0) w = Some (Await f cs0, w) \<and>
     length cs0 = length cs0 \<and>
     [] = map (\<lambda>(i, a). Child i a) [] \<and> t' = Await f cs0 \<and> w' = w"
    by simp
  then show ?case
    by (intro exI[of _ "[]"] exI[of _ cs0] exI[of _ w]) simp
next
  case (Cons a sched)
  from Cons.prems obtain t1 w1 where a: "act a (Await f cs0) w = Some (t1, w1)"
    and r: "run sched t1 w1 = Some (t', w')"
    by (auto split: option.splits)
  have pre0: "run (map (\<lambda>(i, a). Child i a) []) (Await f cs0) w = Some (Await f cs0, w)"
    by simp
  show ?case
  proof (cases a)
    case Resume
    with a obtain vs where ful: "fulfilled cs0 = Some vs" and init: "initialize f vs w = (t1, w1)"
      by (auto split: option.splits)
    from ful have cs0: "cs0 = map Done vs" by (simp add: fulfilled_Some)
    from r init have "run sched (fst (initialize f vs w)) (snd (initialize f vs w)) = Some (t', w')"
      by simp
    with Resume cs0 have "\<exists>vs rest. a # sched = map (\<lambda>(i, a). Child i a) [] @ Resume # rest \<and>
          cs0 = map Done vs \<and>
          run rest (fst (initialize f vs w)) (snd (initialize f vs w)) = Some (t', w')"
      by auto
    then show ?thesis
      apply -
      apply (rule exI[of _ "[]"], rule exI[of _ cs0], rule exI[of _ w])
      apply (intro conjI)
        apply (rule pre0)
       apply (rule refl)
      apply (rule disjI2, rule disjI2)
      apply assumption
      done
  next
    case (Reject i)
    with a obtain e bg where i: "i < length cs0" and ci: "cs0 ! i = Failed e bg"
      and t1: "t1 = Failed e cs0" "w1 = w"
      by (auto split: if_splits task.splits)
    with r Reject have "\<exists>i e bg rest. a # sched = map (\<lambda>(i, a). Child i a) [] @ Reject i # rest \<and>
          i < length cs0 \<and> cs0 ! i = Failed e bg \<and>
          run rest (Failed e cs0) w = Some (t', w')"
      by auto
    then show ?thesis
      apply -
      apply (rule exI[of _ "[]"], rule exI[of _ cs0], rule exI[of _ w])
      apply (intro conjI)
        apply (rule pre0)
       apply (rule refl)
      apply (rule disjI2, rule disjI1)
      apply assumption
      done
  next
    case (Child i b)
    with a obtain c' where i: "i < length cs0" and b: "act b (cs0 ! i) w = Some (c', w1)"
      and t1: "t1 = Await f (cs0[i := c'])"
      by (auto split: if_splits option.splits)
    from Cons.IH[OF r[unfolded t1]] obtain steps cs1 w2 where
      pre: "run (map (\<lambda>(i, a). Child i a) steps) (Await f (cs0[i := c'])) w1 = Some (Await f cs1, w2)"
      and len: "length cs1 = length (cs0[i := c'])"
      and fin: "(sched = map (\<lambda>(i, a). Child i a) steps \<and> t' = Await f cs1 \<and> w' = w2) \<or>
      (\<exists>i e bg rest. sched = map (\<lambda>(i, a). Child i a) steps @ Reject i # rest \<and>
          i < length cs1 \<and> cs1 ! i = Failed e bg \<and>
          run rest (Failed e cs1) w2 = Some (t', w')) \<or>
      (\<exists>vs rest. sched = map (\<lambda>(i, a). Child i a) steps @ Resume # rest \<and>
          cs1 = map Done vs \<and>
          run rest (fst (initialize f vs w2)) (snd (initialize f vs w2)) = Some (t', w'))"
      by blast
    have pre': "run (map (\<lambda>(i, a). Child i a) ((i, b) # steps)) (Await f cs0) w = Some (Await f cs1, w2)"
      using pre i b by simp
    have len': "length cs1 = length cs0" using len by simp
    have fin': "(a # sched = map (\<lambda>(i, a). Child i a) ((i, b) # steps) \<and> t' = Await f cs1 \<and> w' = w2) \<or>
      (\<exists>j e bg rest. a # sched = map (\<lambda>(i, a). Child i a) ((i, b) # steps) @ Reject j # rest \<and>
          j < length cs1 \<and> cs1 ! j = Failed e bg \<and>
          run rest (Failed e cs1) w2 = Some (t', w')) \<or>
      (\<exists>vs rest. a # sched = map (\<lambda>(i, a). Child i a) ((i, b) # steps) @ Resume # rest \<and>
          cs1 = map Done vs \<and>
          run rest (fst (initialize f vs w2)) (snd (initialize f vs w2)) = Some (t', w'))"
      using fin Child by auto
    show ?thesis
      apply (rule exI[of _ "(i, b) # steps"], rule exI[of _ cs1], rule exI[of _ w2])
      apply (intro conjI)
        apply (rule pre')
       apply (rule len')
      apply (rule fin')
      done
  qed
qed

lemma initialize_run:
  assumes r: "run rest (fst (initialize f vs w1)) (snd (initialize f vs w1)) = Some (t', w')"
  shows "(\<exists>c. lifetime f = Singleton c \<and> instances w1 c \<noteq> Undefined \<and>
              t' = Done (instances w1 c) \<and> w' = w1) \<or>
         (\<exists>r u'. user_initialize f vs (user w1) = (r, u') \<and>
              calls w' = calls w1 @ [Initialized (symbol (provides f)) vs r] \<and>
              (settled t' = Some r \<or> (\<exists>c v. r = Inr v \<and> t' = Storing c v)))"
proof -
  obtain r1 w2 where inv: "invoke f vs w1 = (r1, w2)" by (cases "invoke f vs w1")
  from invoke_world[OF inv] have calls2: "calls w2 = calls w1 @ [Initialized (symbol (provides f)) vs r1]"
    and ui: "user_initialize f vs (user w1) = (r1, user w2)" by simp_all
  have failed_case: ?thesis if i: "initialize f vs w1 = (Failed e [], w2)" and e: "r1 = Inl e" for e
  proof -
    from r i have "run rest (Failed e []) w2 = Some (t', w')" by simp
    from run_Failed_Nil[OF this] have "t' = Failed e []" "w' = w2" by simp_all
    with calls2 ui e show ?thesis by auto
  qed
  have done_case: ?thesis if i: "initialize f vs w1 = (Done v, w2)" and e: "r1 = Inr v" for v
  proof -
    from r i have "run rest (Done v) w2 = Some (t', w')" by simp
    from run_Done[OF this] have "t' = Done v" "w' = w2" by simp_all
    with calls2 ui e show ?thesis by auto
  qed
  show ?thesis
  proof (cases "lifetime f")
    case OneShot
    show ?thesis
    proof (cases r1)
      case (Inl e)
      with inv OneShot have "initialize f vs w1 = (Failed e [], w2)" by (simp add: initialize_def)
      from failed_case[OF this Inl] show ?thesis .
    next
      case (Inr v)
      with inv OneShot have "initialize f vs w1 = (Done v, w2)" by (simp add: initialize_def)
      from done_case[OF this Inr] show ?thesis .
    qed
  next
    case (Singleton c)
    show ?thesis
    proof (cases "instances w1 c = Undefined")
      case False
      with Singleton have i: "initialize f vs w1 = (Done (instances w1 c), w1)"
        by (simp add: initialize_def)
      from r i have "run rest (Done (instances w1 c)) w1 = Some (t', w')" by simp
      from run_Done[OF this] have "t' = Done (instances w1 c)" "w' = w1" by simp_all
      with Singleton False show ?thesis by blast
    next
      case True
      show ?thesis
      proof (cases r1)
        case (Inl e)
        with inv Singleton True have "initialize f vs w1 = (Failed e [], w2)"
          by (simp add: initialize_def)
        from failed_case[OF this Inl] show ?thesis .
      next
        case (Inr v)
        with inv Singleton True have i: "initialize f vs w1 = (Storing c v, w2)"
          by (simp add: initialize_def)
        from r i have "run rest (Storing c v) w2 = Some (t', w')" by simp
        from run_Storing_any[OF this]
        have "(t' = Storing c v \<or> t' = Done v) \<and> calls w' = calls w2" by auto
        with calls2 ui Inr show ?thesis by auto
      qed
    qed
  qed
qed

lemma get_awaited_reachable:
  "get n m K = Some t \<Longrightarrow> g \<in> awaited t \<Longrightarrow>
   (symbol K, symbol (provides g)) \<in> (dependency_graph m)\<^sup>*"
proof (induction n arbitrary: K t)
  case 0
  then show ?case by simp
next
  case (Suc n)
  show ?case
  proof (cases "find (isSuitable K) (factories m)")
    case None
    with Suc.prems show ?thesis by auto
  next
    case (Some f)
    with Suc.prems(1) obtain cs where cs: "those (map (get n m) (dependsOn f)) = Some cs"
      and t: "t = Await f cs" by auto
    from Some have fm: "f \<in> set (factories m)" and fk: "symbol (provides f) = symbol K"
      by (auto simp: find_Some_iff isSuitable_def)
    from Suc.prems(2) t consider "g = f" | c where "c \<in> set cs" "g \<in> awaited c" by auto
    then show ?thesis
    proof cases
      case 1
      with fk show ?thesis by simp
    next
      case 2
      from those_map_set[OF cs 2(1)] obtain d where d: "d \<in> set (dependsOn f)"
        and gd: "get n m d = Some c" by blast
      from Suc.IH[OF gd 2(2)] have "(symbol d, symbol (provides g)) \<in> (dependency_graph m)\<^sup>*" .
      moreover from fm d fk have "(symbol K, symbol d) \<in> dependency_graph m"
        by (force simp: dependency_graph_def)
      ultimately show ?thesis by (rule converse_rtrancl_into_rtrancl[rotated])
    qed
  qed
qed

lemma act_invocations:
  assumes a: "act a t w = Some (t', w')"
    and k: "\<forall>g \<in> awaited t. symbol (provides g) \<noteq> k"
  shows "invocations k w' = invocations k w \<and> (\<forall>g \<in> awaited t'. symbol (provides g) \<noteq> k)"
proof -
  from act_effect[OF a] have aw: "awaited t' \<subseteq> awaited t"
    and se: "step_effect (awaited t) (storing t) (failures t) w (storing t') (failures t') w'"
    by auto
  from se consider "w' = w"
    | g vs r where "g \<in> awaited t" "invoke g vs w = (r, w')"
    | c v where "w' = w\<lparr>instances := (instances w)(c := v)\<rparr>"
    unfolding step_effect_def by blast
  then have "invocations k w' = invocations k w"
  proof cases
    case 1
    then show ?thesis by simp
  next
    case 2
    from invoke_world[OF 2(2)] have "calls w' = calls w @ [Initialized (symbol (provides g)) vs r]"
      by simp
    with k 2(1) show ?thesis by (auto simp: invocations_def)
  next
    case 3
    then show ?thesis by (simp add: invocations_def)
  qed
  with aw k show ?thesis by blast
qed

lemma children_invocations:
  assumes "\<forall>c \<in> set cs. \<forall>g \<in> awaited c. symbol (provides g) \<noteq> k"
    and "run (map (\<lambda>(i, a). Child i a) steps) (Await f cs) w = Some (Await f cs1, w1)"
  shows "invocations k w1 = invocations k w \<and>
         (\<forall>c \<in> set cs1. \<forall>g \<in> awaited c. symbol (provides g) \<noteq> k)"
  using assms
proof (induction steps arbitrary: cs w)
  case Nil
  then show ?case by simp
next
  case (Cons s steps)
  obtain i b where s: "s = (i, b)" by (cases s)
  from Cons.prems(2) s obtain c' w2 where i: "i < length cs"
    and b: "act b (cs ! i) w = Some (c', w2)"
    and r: "run (map (\<lambda>(i, a). Child i a) steps) (Await f (cs[i := c'])) w2 = Some (Await f cs1, w1)"
    by (auto split: if_splits option.splits)
  from i have "cs ! i \<in> set cs" by simp
  with Cons.prems(1) have "\<forall>g \<in> awaited (cs ! i). symbol (provides g) \<noteq> k" by blast
  from act_invocations[OF b this] have same: "invocations k w2 = invocations k w"
    and c': "\<forall>g \<in> awaited c'. symbol (provides g) \<noteq> k" by auto
  have "\<forall>c \<in> set (cs[i := c']). \<forall>g \<in> awaited c. symbol (provides g) \<noteq> k"
    using Cons.prems(1) c' set_update_subset_insert[of cs i c'] by blast
  from Cons.IH[OF this r] same show ?case by simp
qed

lemma failed_invocations:
  assumes "\<forall>c \<in> set cs. \<forall>g \<in> awaited c. symbol (provides g) \<noteq> k"
    and "run rest (Failed e cs) w = Some (t', w')"
  shows "invocations k w' = invocations k w"
  using assms
proof (induction rest arbitrary: cs w)
  case Nil
  then show ?case by simp
next
  case (Cons a rest)
  from Cons.prems(2) obtain t1 w2 where a: "act a (Failed e cs) w = Some (t1, w2)"
    and r: "run rest t1 w2 = Some (t', w')"
    by (auto split: option.splits)
  from a obtain i b c' where i: "i < length cs" and b: "act b (cs ! i) w = Some (c', w2)"
    and t1: "t1 = Failed e (cs[i := c'])"
    by (cases a) (auto split: if_splits option.splits)
  from i have "cs ! i \<in> set cs" by simp
  with Cons.prems(1) have "\<forall>g \<in> awaited (cs ! i). symbol (provides g) \<noteq> k" by blast
  from act_invocations[OF b this] have same: "invocations k w2 = invocations k w"
    and c': "\<forall>g \<in> awaited c'. symbol (provides g) \<noteq> k" by auto
  have "\<forall>c \<in> set (cs[i := c']). \<forall>g \<in> awaited c. symbol (provides g) \<noteq> k"
    using Cons.prems(1) c' set_update_subset_insert[of cs i c'] by blast
  from Cons.IH[OF this r[unfolded t1]] same show ?case by simp
qed

lemma Application_from:
  "ServiceModule_from [Factory ConfigFactory, Factory LoggerFactory, Factory AppFactory] = Inr Application"
  by (simp add: eval_defs Application_def)

lemma Application_acyclic: "acyclic (dependency_graph Application)"
  by (rule decreasing_acyclic) (simp add: dependency_graph_def Application_def sample_defs)

lemma JobModule_from:
  "ServiceModule_from [Factory ConfigFactory, Factory BrokenFactory, Factory JobFactory] = Inr JobModule"
  by (simp add: eval_defs job_defs)

lemma JobModule_acyclic: "acyclic (dependency_graph JobModule)"
  by (rule decreasing_acyclic) (simp add: dependency_graph_def job_defs sample_defs)

lemma JobTask_get: "get 2 JobModule Job = Some JobTask"
  by (simp add: job_defs isSuitable_def sample_defs eval_nat_numeral)

lemma JobTask_run:
  "run JobSchedule JobTask initial =
     Some (Failed (Error ''boom'') [Done (Obj 0), Failed (Error ''boom'') []], JobWorld)"
  by (simp add: job_defs run_eval eval_nat_numeral)







section \<open>Facts about the call of the initializer\<close>

text \<open>
  \<^bold>\<open>C5\<close> says that for every valid module and registered key \<^verbatim>\<open>get\<close> waits for all
  the dependencies and calls the factory's \<^verbatim>\<open>initialize\<close> with their values. It does so
  only when every dependency is fulfilled. Here the module is valid and acyclic and
  \<open>Job\<close> is registered, but the initializer of its dependency \<open>Broken\<close> throws: the promise
  of \<^verbatim>\<open>get(Job)\<close> is rejected with that error, nothing is left to run, and the
  initializer of \<open>Job\<close> has not been called. (And in a module with a dependency cycle,
  which validation accepts, \<^verbatim>\<open>get\<close> never gets as far as returning its promise.)
\<close>

theorem get_dependency_failure_counterexample:
  "ServiceModule_from [Factory ConfigFactory, Factory BrokenFactory, Factory JobFactory] = Inr JobModule \<and>
   acyclic (dependency_graph JobModule) \<and>
   isRegistered Job (factories JobModule) \<and>
   get 2 JobModule Job = Some JobTask \<and>
   run JobSchedule JobTask initial =
     Some (Failed (Error ''boom'') [Done (Obj 0), Failed (Error ''boom'') []], JobWorld) \<and>
   finished (Failed (Error ''boom'') [Done (Obj 0), Failed (Error ''boom'') []] :: nat task) \<and>
   invocations (symbol Job) JobWorld = []"
proof -
  have "isRegistered Job (factories JobModule)"
    by (simp add: job_defs isRegistered_def sample_defs)
  moreover have "invocations (symbol Job) JobWorld = []"
    by (simp add: job_defs invocations_def)
  ultimately show ?thesis
    using JobModule_from JobModule_acyclic JobTask_get JobTask_run by simp
qed

text \<open>
  \<^bold>\<open>C5, amended.\<close> In a module built by \<^verbatim>\<open>from\<close> whose dependency graph is acyclic,
  \<^verbatim>\<open>get(K)\<close> for a registered key returns its promise: the call suspended on the factory
  \<open>f\<close> found for \<open>K\<close>, with one child per entry of \<^verbatim>\<open>dependsOn\<close>, in that order, child
  \<open>i\<close> being the promise of \<^verbatim>\<open>get(dependsOn[i])\<close>. Whatever the schedule, it is settled
  after at most \<open>work\<close> turns, and as long as it is not settled some turn is enabled.
  Every run starts with turns in the children only, none of which calls the initializer
  of \<open>f\<close>, and then one of three things has happened. Nothing more: the call still
  waits. Or a child was rejected and the promise was rejected with the child's error, and
  the initializer of \<open>f\<close> has not been called. Or every child was fulfilled and the call
  resumed, calling \<open>f\<close>'s \<^verbatim>\<open>initialize\<close> with the children's values in the order of
  the children: then a singleton that holds an instance returns it, and otherwise the
  user's initializer is called with exactly those values, once, and the promise is
  settled with what it returns or throws (for a singleton, fulfilled one turn later,
  when the instance is stored). So when every dependency is fulfilled the call is made,
  and an error that rejects the promise is one that a user's initializer threw during
  the run.
\<close>

theorem get_passes_dependencies_in_order:
  assumes "ServiceModule_from entries = Inr m" and "acyclic (dependency_graph m)"
    and "find (isSuitable K) (factories m) = Some f"
  shows "\<exists>n cs0.
     (\<forall>n' \<ge> n. get (Suc n') m K = Some (Await f cs0)) \<and>
     length cs0 = length (dependsOn f) \<and>
     (\<forall>i < length (dependsOn f). get n m (dependsOn f ! i) = Some (cs0 ! i)) \<and>
     (\<forall>sched w t' w'. run sched (Await f cs0) w = Some (t', w') \<longrightarrow>
        length sched \<le> work (Await f cs0) \<and>
        (settled t' = None \<longrightarrow> (\<exists>a r. act a t' w' = Some r)) \<and>
        (\<forall>e. settled t' = Some (Inl e) \<longrightarrow>
           (\<exists>k args new. calls w' = calls w @ new \<and> Initialized k args (Inl e) \<in> set new)) \<and>
        (\<exists>steps cs1 w1.
           run (map (\<lambda>(i, a). Child i a) steps) (Await f cs0) w = Some (Await f cs1, w1) \<and>
           length cs1 = length (dependsOn f) \<and>
           invocations (symbol K) w1 = invocations (symbol K) w \<and>
           ((sched = map (\<lambda>(i, a). Child i a) steps \<and> t' = Await f cs1 \<and> w' = w1) \<or>
            (\<exists>i e bg rest. sched = map (\<lambda>(i, a). Child i a) steps @ Reject i # rest \<and>
                i < length cs1 \<and> cs1 ! i = Failed e bg \<and> settled t' = Some (Inl e) \<and>
                invocations (symbol K) w' = invocations (symbol K) w) \<or>
            (\<exists>vs rest. sched = map (\<lambda>(i, a). Child i a) steps @ Resume # rest \<and>
                cs1 = map Done vs \<and>
                ((\<exists>c. lifetime f = Singleton c \<and> instances w1 c \<noteq> Undefined \<and>
                      t' = Done (instances w1 c) \<and> w' = w1) \<or>
                 (\<exists>r u'. user_initialize f vs (user w1) = (r, u') \<and>
                      calls w' = calls w1 @ [Initialized (symbol (provides f)) vs r] \<and>
                      (settled t' = Some r \<or> (\<exists>c v. r = Inr v \<and> t' = Storing c v))))))))"
proof -
  from get_terminates_sym[OF assms(2)] obtain n0 t where g0: "get n0 m K = Some t" by blast
  then obtain n where n0: "n0 = Suc n" by (cases n0) auto
  from g0 n0 assms(3) obtain cs0 where cs0: "those (map (get n m) (dependsOn f)) = Some cs0"
    and t: "t = Await f cs0" by auto
  have g: "\<forall>n' \<ge> n. get (Suc n') m K = Some (Await f cs0)"
  proof (intro allI impI)
    fix n' assume "n \<le> n'"
    then have "Suc n \<le> Suc n'" by simp
    from get_mono[OF this g0[unfolded n0 t]] show "get (Suc n') m K = Some (Await f cs0)" .
  qed
  have len0: "length cs0 = length (dependsOn f)" using cs0 by (rule those_map_length)
  have nth: "\<forall>i < length (dependsOn f). get n m (dependsOn f ! i) = Some (cs0 ! i)"
    using those_map_nth[OF cs0] by blast
  have reg: "isRegistered K (factories m)" using assms(3) by (rule find_registered)
  from assms(3) have fm: "f \<in> set (factories m)" and fk: "symbol (provides f) = symbol K"
    by (auto simp: find_Some_iff isSuitable_def)
  have kids: "\<forall>c \<in> set cs0. \<forall>g \<in> awaited c. symbol (provides g) \<noteq> symbol K"
  proof (intro ballI notI)
    fix c g assume c: "c \<in> set cs0" and g: "g \<in> awaited c"
      and eq: "symbol (provides g) = symbol K"
    from those_map_set[OF cs0 c] obtain d where d: "d \<in> set (dependsOn f)"
      and gd: "get n m d = Some c" by blast
    from get_awaited_reachable[OF gd g] eq
    have "(symbol d, symbol K) \<in> (dependency_graph m)\<^sup>*" by simp
    moreover from fm d fk have "(symbol K, symbol d) \<in> dependency_graph m"
      by (force simp: dependency_graph_def)
    ultimately have "(symbol K, symbol K) \<in> (dependency_graph m)\<^sup>+"
      by (rule rtrancl_into_trancl2[rotated])
    with assms(2) show False by (simp add: acyclic_def)
  qed
  have runs: "length sched \<le> work (Await f cs0) \<and>
        (settled t' = None \<longrightarrow> (\<exists>a r. act a t' w' = Some r)) \<and>
        (\<forall>e. settled t' = Some (Inl e) \<longrightarrow>
           (\<exists>k args new. calls w' = calls w @ new \<and> Initialized k args (Inl e) \<in> set new)) \<and>
        (\<exists>steps cs1 w1.
           run (map (\<lambda>(i, a). Child i a) steps) (Await f cs0) w = Some (Await f cs1, w1) \<and>
           length cs1 = length (dependsOn f) \<and>
           invocations (symbol K) w1 = invocations (symbol K) w \<and>
           ((sched = map (\<lambda>(i, a). Child i a) steps \<and> t' = Await f cs1 \<and> w' = w1) \<or>
            (\<exists>i e bg rest. sched = map (\<lambda>(i, a). Child i a) steps @ Reject i # rest \<and>
                i < length cs1 \<and> cs1 ! i = Failed e bg \<and> settled t' = Some (Inl e) \<and>
                invocations (symbol K) w' = invocations (symbol K) w) \<or>
            (\<exists>vs rest. sched = map (\<lambda>(i, a). Child i a) steps @ Resume # rest \<and>
                cs1 = map Done vs \<and>
                ((\<exists>c. lifetime f = Singleton c \<and> instances w1 c \<noteq> Undefined \<and>
                      t' = Done (instances w1 c) \<and> w' = w1) \<or>
                 (\<exists>r u'. user_initialize f vs (user w1) = (r, u') \<and>
                      calls w' = calls w1 @ [Initialized (symbol (provides f)) vs r] \<and>
                      (settled t' = Some r \<or> (\<exists>c v. r = Inr v \<and> t' = Storing c v)))))))"
    if r: "run sched (Await f cs0) w = Some (t', w')" for sched w t' w'
  proof -
    have 1: "length sched \<le> work (Await f cs0)" using run_work[OF r] by simp
    have 2: "settled t' = None \<longrightarrow> (\<exists>a r. act a t' w' = Some r)" using progress by blast
    have 3: "\<forall>e. settled t' = Some (Inl e) \<longrightarrow>
           (\<exists>k args new. calls w' = calls w @ new \<and> Initialized k args (Inl e) \<in> set new)"
      using rejection_thrown[OF from_valid[OF assms(1)] reg g0[unfolded t] r] by blast
    from await_run[OF r] obtain steps cs1 w1 where
      pre: "run (map (\<lambda>(i, a). Child i a) steps) (Await f cs0) w = Some (Await f cs1, w1)"
      and len: "length cs1 = length cs0"
      and fin: "(sched = map (\<lambda>(i, a). Child i a) steps \<and> t' = Await f cs1 \<and> w' = w1) \<or>
        (\<exists>i e bg rest. sched = map (\<lambda>(i, a). Child i a) steps @ Reject i # rest \<and>
            i < length cs1 \<and> cs1 ! i = Failed e bg \<and>
            run rest (Failed e cs1) w1 = Some (t', w')) \<or>
        (\<exists>vs rest. sched = map (\<lambda>(i, a). Child i a) steps @ Resume # rest \<and>
            cs1 = map Done vs \<and>
            run rest (fst (initialize f vs w1)) (snd (initialize f vs w1)) = Some (t', w'))"
      by blast
    from children_invocations[OF kids pre]
    have pre_same: "invocations (symbol K) w1 = invocations (symbol K) w"
      and kids1: "\<forall>c \<in> set cs1. \<forall>g \<in> awaited c. symbol (provides g) \<noteq> symbol K"
      by auto
    have rej: "settled t' = Some (Inl e)" if "run rest (Failed e cs1) w1 = Some (t', w')" for e rest
      using run_Failed[OF that] by auto
    let ?called = "\<lambda>vs. (\<exists>c. lifetime f = Singleton c \<and> instances w1 c \<noteq> Undefined \<and>
                      t' = Done (instances w1 c) \<and> w' = w1) \<or>
                 (\<exists>r u'. user_initialize f vs (user w1) = (r, u') \<and>
                      calls w' = calls w1 @ [Initialized (symbol (provides f)) vs r] \<and>
                      (settled t' = Some r \<or> (\<exists>c v. r = Inr v \<and> t' = Storing c v)))"
    let ?A = "sched = map (\<lambda>(i, a). Child i a) steps \<and> t' = Await f cs1 \<and> w' = w1"
    let ?B = "\<exists>i e bg rest. sched = map (\<lambda>(i, a). Child i a) steps @ Reject i # rest \<and>
                i < length cs1 \<and> cs1 ! i = Failed e bg \<and> settled t' = Some (Inl e) \<and>
                invocations (symbol K) w' = invocations (symbol K) w"
    let ?C = "\<exists>vs rest. sched = map (\<lambda>(i, a). Child i a) steps @ Resume # rest \<and>
                cs1 = map Done vs \<and> ?called vs"
    have fin': "?A \<or> ?B \<or> ?C"
      using fin
    proof (elim disjE exE conjE)
      assume "sched = map (\<lambda>(i, a). Child i a) steps" "t' = Await f cs1" "w' = w1"
      then have ?A by simp
      then show ?thesis by (rule disjI1)
    next
      fix i e bg rest
      assume a: "sched = map (\<lambda>(i, a). Child i a) steps @ Reject i # rest" "i < length cs1"
        "cs1 ! i = Failed e bg" and b: "run rest (Failed e cs1) w1 = Some (t', w')"
      from failed_invocations[OF kids1 b] pre_same
      have "invocations (symbol K) w' = invocations (symbol K) w" by simp
      with rej[OF b] a have "sched = map (\<lambda>(i, a). Child i a) steps @ Reject i # rest \<and>
                i < length cs1 \<and> cs1 ! i = Failed e bg \<and> settled t' = Some (Inl e) \<and>
                invocations (symbol K) w' = invocations (symbol K) w" by simp
      then have ?B by (intro exI)
      then show ?thesis by (intro disjI2 disjI1)
    next
      fix vs rest
      assume a: "sched = map (\<lambda>(i, a). Child i a) steps @ Resume # rest" "cs1 = map Done vs"
        and b: "run rest (fst (initialize f vs w1)) (snd (initialize f vs w1)) = Some (t', w')"
      from initialize_run[OF b] have "?called vs" .
      with a have "sched = map (\<lambda>(i, a). Child i a) steps @ Resume # rest \<and>
                cs1 = map Done vs \<and> ?called vs" by (intro conjI)
      then have ?C by (intro exI)
      then show ?thesis by (intro disjI2)
    qed
    from len len0 have len1: "length cs1 = length (dependsOn f)" by simp
    have 4: "\<exists>steps cs1 w1.
           run (map (\<lambda>(i, a). Child i a) steps) (Await f cs0) w = Some (Await f cs1, w1) \<and>
           length cs1 = length (dependsOn f) \<and>
           invocations (symbol K) w1 = invocations (symbol K) w \<and>
           ((sched = map (\<lambda>(i, a). Child i a) steps \<and> t' = Await f cs1 \<and> w' = w1) \<or>
            (\<exists>i e bg rest. sched = map (\<lambda>(i, a). Child i a) steps @ Reject i # rest \<and>
                i < length cs1 \<and> cs1 ! i = Failed e bg \<and> settled t' = Some (Inl e) \<and>
                invocations (symbol K) w' = invocations (symbol K) w) \<or>
            (\<exists>vs rest. sched = map (\<lambda>(i, a). Child i a) steps @ Resume # rest \<and>
                cs1 = map Done vs \<and>
                ((\<exists>c. lifetime f = Singleton c \<and> instances w1 c \<noteq> Undefined \<and>
                      t' = Done (instances w1 c) \<and> w' = w1) \<or>
                 (\<exists>r u'. user_initialize f vs (user w1) = (r, u') \<and>
                      calls w' = calls w1 @ [Initialized (symbol (provides f)) vs r] \<and>
                      (settled t' = Some r \<or> (\<exists>c v. r = Inr v \<and> t' = Storing c v))))))"
      apply (rule exI[of _ steps], rule exI[of _ cs1], rule exI[of _ w1])
      apply (intro conjI)
         apply (rule pre)
        apply (rule len1)
       apply (rule pre_same)
      apply (rule fin')
      done
    from 1 2 3 4 show ?thesis by (intro conjI)
  qed
  show ?thesis
    apply (rule exI[of _ n], rule exI[of _ cs0])
    apply (intro conjI)
       apply (rule g)
      apply (rule len0)
     apply (rule nth)
    apply (intro allI impI)
    apply (erule runs)
    done
qed

theorem get_passes_dependencies_in_order_witness:
  "ServiceModule_from [Factory ConfigFactory, Factory LoggerFactory, Factory AppFactory] = Inr Application \<and>
   acyclic (dependency_graph Application) \<and>
   get (Suc 2) Application App = Some AppTask \<and>
   run AppSchedule AppTask initial = Some (Done (Obj 3), AppWorld) \<and>
   length AppSchedule \<le> work AppTask \<and>
   (\<exists>steps rest w1 u'.
      run (map (\<lambda>(i, a). Child i a) steps) AppTask initial =
        Some (Await AppFactory (map Done [Obj 0, Obj 2]), w1) \<and>
      AppSchedule = map (\<lambda>(i, a). Child i a) steps @ Resume # rest \<and>
      invocations (symbol App) w1 = [] \<and>
      user_initialize AppFactory [Obj 0, Obj 2] (user w1) = (Inr (Obj 3), u') \<and>
      calls AppWorld = calls w1 @ [Initialized (symbol App) [Obj 0, Obj 2] (Inr (Obj 3))])"
proof -
  from get_passes_dependencies_in_order[OF Application_from Application_acyclic app_find]
  obtain n cs0 where g: "\<forall>n' \<ge> n. get (Suc n') Application App = Some (Await AppFactory cs0)"
    and runs: "\<forall>sched w t' w'. run sched (Await AppFactory cs0) w = Some (t', w') \<longrightarrow>
        length sched \<le> work (Await AppFactory cs0) \<and>
        (settled t' = None \<longrightarrow> (\<exists>a r. act a t' w' = Some r)) \<and>
        (\<forall>e. settled t' = Some (Inl e) \<longrightarrow>
           (\<exists>k args new. calls w' = calls w @ new \<and> Initialized k args (Inl e) \<in> set new)) \<and>
        (\<exists>steps cs1 w1.
           run (map (\<lambda>(i, a). Child i a) steps) (Await AppFactory cs0) w =
             Some (Await AppFactory cs1, w1) \<and>
           length cs1 = length (dependsOn AppFactory) \<and>
           invocations (symbol App) w1 = invocations (symbol App) w \<and>
           ((sched = map (\<lambda>(i, a). Child i a) steps \<and> t' = Await AppFactory cs1 \<and> w' = w1) \<or>
            (\<exists>i e bg rest. sched = map (\<lambda>(i, a). Child i a) steps @ Reject i # rest \<and>
                i < length cs1 \<and> cs1 ! i = Failed e bg \<and> settled t' = Some (Inl e) \<and>
                invocations (symbol App) w' = invocations (symbol App) w) \<or>
            (\<exists>vs rest. sched = map (\<lambda>(i, a). Child i a) steps @ Resume # rest \<and>
                cs1 = map Done vs \<and>
                ((\<exists>c. lifetime AppFactory = Singleton c \<and> instances w1 c \<noteq> Undefined \<and>
                      t' = Done (instances w1 c) \<and> w' = w1) \<or>
                 (\<exists>r u'. user_initialize AppFactory vs (user w1) = (r, u') \<and>
                      calls w' = calls w1 @ [Initialized (symbol (provides AppFactory)) vs r] \<and>
                      (settled t' = Some r \<or> (\<exists>c v. r = Inr v \<and> t' = Storing c v)))))))"
    by blast
  from g have "get (Suc n) Application App = Some (Await AppFactory cs0)" by simp
  from get_unique[OF this AppTask_get] have eq: "Await AppFactory cs0 = AppTask" .
  have one: "lifetime AppFactory = OneShot" "symbol (provides AppFactory) = symbol App"
    by (simp_all add: sample_defs)
  from runs[unfolded eq, rule_format, OF AppTask_run]
  have len: "length AppSchedule \<le> work AppTask"
    and "\<exists>steps cs1 w1.
           run (map (\<lambda>(i, a). Child i a) steps) AppTask initial = Some (Await AppFactory cs1, w1) \<and>
           length cs1 = length (dependsOn AppFactory) \<and>
           invocations (symbol App) w1 = invocations (symbol App) initial \<and>
           ((AppSchedule = map (\<lambda>(i, a). Child i a) steps \<and> Done (Obj 3) = Await AppFactory cs1 \<and>
             AppWorld = w1) \<or>
            (\<exists>i e bg rest. AppSchedule = map (\<lambda>(i, a). Child i a) steps @ Reject i # rest \<and>
                i < length cs1 \<and> cs1 ! i = Failed e bg \<and>
                settled (Done (Obj 3) :: nat task) = Some (Inl e) \<and>
                invocations (symbol App) AppWorld = invocations (symbol App) initial) \<or>
            (\<exists>vs rest. AppSchedule = map (\<lambda>(i, a). Child i a) steps @ Resume # rest \<and>
                cs1 = map Done vs \<and>
                ((\<exists>c. lifetime AppFactory = Singleton c \<and> instances w1 c \<noteq> Undefined \<and>
                      Done (Obj 3) = Done (instances w1 c) \<and> AppWorld = w1) \<or>
                 (\<exists>r u'. user_initialize AppFactory vs (user w1) = (r, u') \<and>
                      calls AppWorld = calls w1 @ [Initialized (symbol (provides AppFactory)) vs r] \<and>
                      (settled (Done (Obj 3) :: nat task) = Some r \<or>
                       (\<exists>c v. r = Inr v \<and> Done (Obj 3) = Storing c v))))))"
    by blast+
  then obtain steps w1 vs rest r u' where
    pre: "run (map (\<lambda>(i, a). Child i a) steps) AppTask initial = Some (Await AppFactory (map Done vs), w1)"
    and sch: "AppSchedule = map (\<lambda>(i, a). Child i a) steps @ Resume # rest"
    and iv: "invocations (symbol App) w1 = invocations (symbol App) initial"
    and ui: "user_initialize AppFactory vs (user w1) = (r, u')"
    and cl: "calls AppWorld = calls w1 @ [Initialized (symbol App) vs r]"
    using one by auto
  from cl have "last (calls AppWorld) = Initialized (symbol App) vs r" by simp
  then have "vs = [Obj 0, Obj 2]" "r = Inr (Obj 3)" by (simp_all add: AppWorld_def)
  note pre sch iv ui cl this
  moreover have "invocations (symbol App) initial = []" by (simp add: invocations_def initial_def)
  ultimately have "\<exists>steps rest w1 u'.
      run (map (\<lambda>(i, a). Child i a) steps) AppTask initial =
        Some (Await AppFactory (map Done [Obj 0, Obj 2]), w1) \<and>
      AppSchedule = map (\<lambda>(i, a). Child i a) steps @ Resume # rest \<and>
      invocations (symbol App) w1 = [] \<and>
      user_initialize AppFactory [Obj 0, Obj 2] (user w1) = (Inr (Obj 3), u') \<and>
      calls AppWorld = calls w1 @ [Initialized (symbol App) [Obj 0, Obj 2] (Inr (Obj 3))]"
    apply -
    apply (rule exI[of _ steps], rule exI[of _ rest], rule exI[of _ w1], rule exI[of _ u'])
    apply simp
    done
  with Application_from Application_acyclic AppTask_get AppTask_run len show ?thesis
    by (intro conjI)
qed

section \<open>Facts about failures\<close>




section \<open>Facts about disposal\<close>

lemmas scoped_defs = RequestScope_def SecondRequestScope_def Metrics_def ConfigPerRequest_def
  SecondLogger_def DatabaseFactory_def RequestMetrics_def ScopedApplication_def ServingWorld_def
  RequestEndWorld_def

lemmas lease_defs = RequestScope_def Lease_def LeaseFactory_def LeaseModule_def LeaseWorld_def
  ReleasedWorld_def

lemma singleton_cells_Cons:
  "singleton_cells (f # fs) =
     (case lifetime f of Singleton c \<Rightarrow> [c] | OneShot \<Rightarrow> []) @ singleton_cells fs"
  by (simp add: singleton_cells_def)

lemma cell_mem: "f \<in> set fs \<Longrightarrow> lifetime f = Singleton c \<Longrightarrow> c \<in> set (singleton_cells fs)"
  by (force simp: singleton_cells_def)

lemma distinct_cells:
  "distinct (singleton_cells fs) \<Longrightarrow> f \<in> set fs \<Longrightarrow> g \<in> set fs \<Longrightarrow>
   lifetime f = Singleton c \<Longrightarrow> lifetime g = Singleton c \<Longrightarrow> f = g"
proof (induction fs)
  case Nil
  then show ?case by simp
next
  case (Cons x xs)
  from Cons.prems(1) have d: "distinct (singleton_cells xs)"
    by (simp add: singleton_cells_Cons)
  have notin: "c \<notin> set (singleton_cells xs)" if "lifetime x = Singleton c"
    using Cons.prems(1) that by (simp add: singleton_cells_Cons)
  consider "f = x" "g = x" | "f = x" "g \<in> set xs" | "f \<in> set xs" "g = x" | "f \<in> set xs" "g \<in> set xs"
    using Cons.prems(2,3) by auto
  then show ?case
  proof cases
    case 1
    then show ?thesis by simp
  next
    case 2
    with notin Cons.prems(4,5) cell_mem show ?thesis by blast
  next
    case 3
    with notin Cons.prems(4,5) cell_mem show ?thesis by blast
  next
    case 4
    with Cons.IH[OF d] Cons.prems(4,5) show ?thesis by blast
  qed
qed

lemma dispose_factory_effect:
  assumes "\<forall>v u. fst (user_dispose f v u) = None"
  shows "dispose_factory f w =
     (None,
      if cached_instance f w = Undefined then w
      else w\<lparr>user := snd (user_dispose f (cached_instance f w) (user w)),
             calls := calls w @ [Disposed (symbol (provides f)) (cached_instance f w) None],
             instances := (\<lambda>c. if lifetime f = Singleton c then Undefined else instances w c)\<rparr>)"
proof (cases "lifetime f")
  case OneShot
  then show ?thesis by (simp add: dispose_factory_def cached_instance_def)
next
  case (Singleton c)
  obtain r u' where ud: "user_dispose f (instances w c) (user w) = (r, u')"
    by (cases "user_dispose f (instances w c) (user w)")
  with assms have r: "r = None" by (metis fst_conv)
  have "(\<lambda>x. if lifetime f = Singleton x then Undefined else instances w x) =
        (instances w)(c := Undefined)"
    using Singleton by auto
  then show ?thesis
    using Singleton ud r
    by (auto simp: dispose_factory_def cached_instance_def Let_def)
qed

lemma dispose_each_effect:
  assumes "distinct (singleton_cells fs)"
    and "\<forall>f \<in> set fs. \<forall>v u. fst (user_dispose f v u) = None"
    and "dispose_each fs w = (r, w')"
  shows "r = None \<and>
     calls w' = calls w @ map (\<lambda>f. Disposed (symbol (provides f)) (cached_instance f w) None)
                            (filter (\<lambda>f. cached_instance f w \<noteq> Undefined) fs) \<and>
     user w' = foldl (\<lambda>u f. snd (user_dispose f (cached_instance f w) u)) (user w)
                 (filter (\<lambda>f. cached_instance f w \<noteq> Undefined) fs) \<and>
     (\<forall>c. instances w' c = (if c \<in> set (singleton_cells fs) then Undefined else instances w c))"
  using assms
proof (induction fs arbitrary: w)
  case Nil
  then show ?case by (simp add: singleton_cells_def)
next
  case (Cons f fs)
  from Cons.prems(2) have nf: "\<forall>v u. fst (user_dispose f v u) = None" by simp
  define w1 where "w1 = (if cached_instance f w = Undefined then w
      else w\<lparr>user := snd (user_dispose f (cached_instance f w) (user w)),
             calls := calls w @ [Disposed (symbol (provides f)) (cached_instance f w) None],
             instances := (\<lambda>c. if lifetime f = Singleton c then Undefined else instances w c)\<rparr>)"
  from dispose_factory_effect[OF nf, of w] have df: "dispose_factory f w = (None, w1)"
    by (simp add: w1_def)
  from Cons.prems(3) df have rest: "dispose_each fs w1 = (r, w')" by simp
  from Cons.prems(1) have d: "distinct (singleton_cells fs)"
    by (simp add: singleton_cells_Cons)
  from Cons.prems(2) have nfs: "\<forall>f \<in> set fs. \<forall>v u. fst (user_dispose f v u) = None" by simp
  note IH = Cons.IH[OF d nfs rest]
  have other: "cached_instance g w1 = cached_instance g w" if g: "g \<in> set fs" for g
  proof (cases "lifetime g")
    case OneShot
    then show ?thesis by (simp add: cached_instance_def)
  next
    case (Singleton c)
    with g have "c \<in> set (singleton_cells fs)" using cell_mem by blast
    with Cons.prems(1) have "lifetime f \<noteq> Singleton c"
      by (auto simp: singleton_cells_Cons)
    then show ?thesis using Singleton by (simp add: cached_instance_def w1_def)
  qed
  have 1: "r = None" using IH by simp
  have fl: "filter (\<lambda>f. cached_instance f w1 \<noteq> Undefined) fs =
            filter (\<lambda>f. cached_instance f w \<noteq> Undefined) fs"
    using other by (auto intro!: filter_cong)
  have m: "map (\<lambda>f. Disposed (symbol (provides f)) (cached_instance f w1) None)
             (filter (\<lambda>f. cached_instance f w1 \<noteq> Undefined) fs) =
           map (\<lambda>f. Disposed (symbol (provides f)) (cached_instance f w) None)
             (filter (\<lambda>f. cached_instance f w \<noteq> Undefined) fs)"
    unfolding fl using other by (auto intro!: map_cong)
  have 2: "calls w' = calls w @ map (\<lambda>f. Disposed (symbol (provides f)) (cached_instance f w) None)
                            (filter (\<lambda>f. cached_instance f w \<noteq> Undefined) (f # fs))"
    using IH m by (simp add: w1_def)
  have u: "foldl (\<lambda>u f. snd (user_dispose f (cached_instance f w1) u)) (user w1)
             (filter (\<lambda>f. cached_instance f w1 \<noteq> Undefined) fs) =
           foldl (\<lambda>u f. snd (user_dispose f (cached_instance f w) u)) (user w1)
             (filter (\<lambda>f. cached_instance f w \<noteq> Undefined) fs)"
    unfolding fl using other by (auto intro!: foldl_cong)
  have 4: "user w' = foldl (\<lambda>u f. snd (user_dispose f (cached_instance f w) u)) (user w)
                 (filter (\<lambda>f. cached_instance f w \<noteq> Undefined) (f # fs))"
    using IH u by (simp add: w1_def)
  have 3: "instances w' c = (if c \<in> set (singleton_cells (f # fs)) then Undefined else instances w c)"
    for c
  proof -
    from IH have i: "instances w' c = (if c \<in> set (singleton_cells fs) then Undefined else instances w1 c)"
      by simp
    show ?thesis
    proof (cases "lifetime f = Singleton c")
      case True
      then have "instances w1 c = Undefined"
        by (auto simp: w1_def cached_instance_def)
      with i True show ?thesis by (simp add: singleton_cells_Cons)
    next
      case False
      then have "instances w1 c = instances w c" by (simp add: w1_def)
      moreover have "c \<in> set (singleton_cells (f # fs)) \<longleftrightarrow> c \<in> set (singleton_cells fs)"
        using False by (auto simp: singleton_cells_Cons split: lifetime.splits)
      ultimately show ?thesis using i by simp
    qed
  qed
  from 1 2 4 3 show ?case by blast
qed

lemma produced_step:
  assumes inv: "\<exists>new. calls w = L @ new \<and>
        (instances w c = Undefined \<or> (\<exists>args. Initialized k args (Inr (instances w c)) \<in> set new)) \<and>
        (\<forall>v. (c, v) \<in> storing t \<longrightarrow> (\<exists>args. Initialized k args (Inr v) \<in> set new)) \<and>
        (\<forall>g \<in> awaited t. lifetime g = Singleton c \<longrightarrow> symbol (provides g) = k)"
    and a: "act a t w = Some (t', w')"
  shows "\<exists>new. calls w' = L @ new \<and>
        (instances w' c = Undefined \<or> (\<exists>args. Initialized k args (Inr (instances w' c)) \<in> set new)) \<and>
        (\<forall>v. (c, v) \<in> storing t' \<longrightarrow> (\<exists>args. Initialized k args (Inr v) \<in> set new)) \<and>
        (\<forall>g \<in> awaited t'. lifetime g = Singleton c \<longrightarrow> symbol (provides g) = k)"
proof -
  from inv obtain new where new: "calls w = L @ new"
    and ins: "instances w c = Undefined \<or> (\<exists>args. Initialized k args (Inr (instances w c)) \<in> set new)"
    and sto: "\<forall>v. (c, v) \<in> storing t \<longrightarrow> (\<exists>args. Initialized k args (Inr v) \<in> set new)"
    and own: "\<forall>g \<in> awaited t. lifetime g = Singleton c \<longrightarrow> symbol (provides g) = k"
    by blast
  from act_effect[OF a] have aw: "awaited t' \<subseteq> awaited t"
    and se: "step_effect (awaited t) (storing t) (failures t) w (storing t') (failures t') w'"
    by auto
  from own aw have own': "\<forall>g \<in> awaited t'. lifetime g = Singleton c \<longrightarrow> symbol (provides g) = k"
    by blast
  from se consider
    (same) "w' = w" "storing t' \<subseteq> storing t"
  | (inv) f vs r where "f \<in> awaited t"
      "invoke f vs w = (r, w')"
      "(case r of
            Inl e \<Rightarrow> storing t' \<subseteq> storing t \<and> failures t' \<subseteq> insert e (failures t)
          | Inr v \<Rightarrow> failures t' \<subseteq> failures t \<and>
              (case lifetime f of
                 OneShot \<Rightarrow> storing t' \<subseteq> storing t
               | Singleton c \<Rightarrow> storing t' \<subseteq> insert (c, v) (storing t)))"
  | (store) c' v' where "(c', v') \<in> storing t" "w' = w\<lparr>instances := (instances w)(c' := v')\<rparr>"
      "storing t' \<subseteq> storing t"
    unfolding step_effect_def by blast
  then show ?thesis
  proof cases
    case same
    with new ins sto own' show ?thesis by blast
  next
    case inv': inv
    let ?new = "new @ [Initialized (symbol (provides f)) vs r]"
    from invoke_world[OF inv'(2)] have iw: "instances w' = instances w"
      and cw: "calls w' = L @ ?new" using new by auto
    have up: "\<And>x. x \<in> set new \<Longrightarrow> x \<in> set ?new" by simp
    have last: "Initialized (symbol (provides f)) vs r \<in> set ?new" by simp
    have 1: "instances w' c = Undefined \<or> (\<exists>args. Initialized k args (Inr (instances w' c)) \<in> set ?new)"
      unfolding iw using ins up by blast
    have 2: "\<exists>args. Initialized k args (Inr v) \<in> set ?new" if v: "(c, v) \<in> storing t'" for v
    proof (cases "(c, v) \<in> storing t")
      case True
      with sto up show ?thesis by blast
    next
      case False
      with v inv'(3) have "r = Inr v \<and> lifetime f = Singleton c"
        by (auto split: sum.splits lifetime.splits)
      with own inv'(1) have "r = Inr v" "symbol (provides f) = k" by auto
      with last show ?thesis by blast
    qed
    from cw 1 2 own' show ?thesis by blast
  next
    case store
    have 1: "instances w' c = Undefined \<or> (\<exists>args. Initialized k args (Inr (instances w' c)) \<in> set new)"
    proof (cases "c' = c")
      case True
      then have "instances w' c = v'" using store(2) by simp
      with sto store(1) True show ?thesis by auto
    next
      case False
      then have "instances w' c = instances w c" using store(2) by simp
      with ins show ?thesis by simp
    qed
    have "calls w' = L @ new" using new store(2) by simp
    with 1 sto store(3) own' show ?thesis by blast
  qed
qed

lemma fresh_resolution:
  assumes d: "distinct (singleton_cells (factories m))"
    and f: "find (isSuitable K) (factories m) = Some f" "lifetime f = Singleton c"
    and e: "instances w c = Undefined"
    and t: "get n m K = Some t"
    and r: "run sched t w = Some (Done v, w')"
  shows "\<exists>args new. calls w' = calls w @ new \<and> Initialized (symbol K) args (Inr v) \<in> set new"
proof -
  let ?k = "symbol K"
  let ?I = "\<lambda>t w1. \<exists>new. calls w1 = calls w @ new \<and>
        (instances w1 c = Undefined \<or> (\<exists>args. Initialized ?k args (Inr (instances w1 c)) \<in> set new)) \<and>
        (\<forall>v. (c, v) \<in> storing t \<longrightarrow> (\<exists>args. Initialized ?k args (Inr v) \<in> set new)) \<and>
        (\<forall>g \<in> awaited t. lifetime g = Singleton c \<longrightarrow> symbol (provides g) = ?k)"
  from f(1) have fm: "f \<in> set (factories m)" and fk: "symbol (provides f) = ?k"
    by (auto simp: find_Some_iff isSuitable_def)
  have own: "\<forall>g \<in> awaited t. lifetime g = Singleton c \<longrightarrow> symbol (provides g) = ?k"
  proof (intro ballI impI)
    fix g assume g: "g \<in> awaited t" and lg: "lifetime g = Singleton c"
    from get_tree[OF t] g have "find (isSuitable (provides g)) (factories m) = Some g" by blast
    then have "g \<in> set (factories m)" by (auto simp: find_Some_iff)
    from distinct_cells[OF d this fm lg f(2)] fk show "symbol (provides g) = ?k" by simp
  qed
  have I0: "?I t w" using e own get_tree[OF t] by simp
  from get_Await[OF f(1) t] obtain cs where tc: "t = Await f cs" ..
  from fulfilled_run[OF r[unfolded tc]] obtain steps vs w1 where
    pre: "run (map (\<lambda>(i, a). Child i a) steps) (Await f cs) w = Some (Await f (map Done vs), w1)"
    and fin: "initialize f vs w1 = (Done v, w') \<or>
       (\<exists>c w2. initialize f vs w1 = (Storing c v, w2) \<and> w' = w2\<lparr>instances := (instances w2)(c := v)\<rparr>)"
    by blast
  have "?I (Await f (map Done vs)) w1"
  proof (rule run_invariant[where I = ?I, OF _ _ pre[folded tc]])
    show "?I t w" by (rule I0)
  next
    fix a t w1 t' w1'
    assume "?I t w1" "act a t w1 = Some (t', w1')"
    then show "?I t' w1'" by (rule produced_step)
  qed
  then obtain new where new: "calls w1 = calls w @ new"
    and ins: "instances w1 c = Undefined \<or> (\<exists>args. Initialized ?k args (Inr (instances w1 c)) \<in> set new)"
    by blast
  show ?thesis
  proof (cases "instances w1 c = Undefined")
    case False
    with fin f(2) have "v = instances w1 c" "w' = w1"
      by (auto simp: initialize_def)
    with ins False new show ?thesis by auto
  next
    case True
    obtain r1 w2 where inv: "invoke f vs w1 = (r1, w2)" by (cases "invoke f vs w1")
    with fin f(2) True have "r1 = Inr v" "calls w' = calls w2"
      by (auto simp: initialize_def split: sum.splits)
    with invoke_world[OF inv] new fk
    have "calls w' = calls w @ (new @ [Initialized ?k vs (Inr v)])" by simp
    moreover have "Initialized ?k vs (Inr v) \<in> set (new @ [Initialized ?k vs (Inr v)])" by simp
    ultimately show ?thesis by blast
  qed
qed

lemma singleton_cells_filter_subset:
  "set (singleton_cells (filter P fs)) \<subseteq> set (singleton_cells fs)"
  by (auto simp: singleton_cells_def)

lemma distinct_cells_filter:
  "distinct (singleton_cells fs) \<Longrightarrow> distinct (singleton_cells (filter P fs))"
proof (induction fs)
  case Nil
  then show ?case by simp
next
  case (Cons f fs)
  then have d: "distinct (singleton_cells (filter P fs))"
    by (simp add: singleton_cells_Cons)
  show ?case
  proof (cases "P f")
    case False
    with d show ?thesis by simp
  next
    case True
    show ?thesis
    proof (cases "lifetime f")
      case OneShot
      with d True show ?thesis by (simp add: singleton_cells_Cons)
    next
      case (Singleton c)
      with Cons.prems have "c \<notin> set (singleton_cells fs)"
        by (simp add: singleton_cells_Cons)
      with singleton_cells_filter_subset[of P fs] have "c \<notin> set (singleton_cells (filter P fs))"
        by blast
      with d True Singleton show ?thesis by (simp add: singleton_cells_Cons)
    qed
  qed
qed

lemma ScopedModule_from:
  "ServiceModule_from [Factory ConfigPerRequest, Factory SecondLogger, Factory DatabaseFactory,
     Factory RequestMetrics, Factory AppFactory] = Inr ScopedApplication"
  by (simp add: eval_defs scoped_defs)

lemma Scoped_dispose:
  "dispose ScopedApplication (Some RequestScope) ServingWorld = (None, RequestEndWorld)"
  by (simp add: scoped_defs dispose_def dispose_factory_def in_scope_def sample_defs fun_eq_iff)

lemma Scoped_dispose_second:
  "dispose ScopedApplication (Some SecondRequestScope) ServingWorld =
     (None, \<lparr>instances = (\<lambda>c. Undefined)(10 := Obj 0, 12 := Obj 2), user = 1003,
             calls = [Disposed 1 (Obj 1) None]\<rparr>)"
  by (simp add: scoped_defs dispose_def dispose_factory_def in_scope_def sample_defs fun_eq_iff)

lemma Scoped_dispose_all:
  "dispose ScopedApplication None ServingWorld =
     (None, \<lparr>instances = (\<lambda>c. Undefined), user = 11103,
             calls = [Disposed 0 (Obj 0) None, Disposed 1 (Obj 1) None, Disposed 3 (Obj 2) None]\<rparr>)"
  by (simp add: scoped_defs dispose_def dispose_factory_def in_scope_def sample_defs fun_eq_iff)

lemma Scoped_fresh:
  "run [Resume, Resume] (Await ConfigPerRequest []) RequestEndWorld =
     Some (Done (Obj 103),
           \<lparr>instances = (\<lambda>c. Undefined)(11 := Obj 1, 12 := Obj 2, 10 := Obj 103), user = 104,
            calls = [Disposed 0 (Obj 0) None, Initialized 0 [] (Inr (Obj 103))]\<rparr>)"
  by (simp add: scoped_defs run_eval eval_nat_numeral)

lemma LeaseModule_from: "ServiceModule_from [Factory LeaseFactory] = Inr LeaseModule"
  by (simp add: eval_defs lease_defs)

lemma Lease_first:
  "run [Resume, Resume] (Await LeaseFactory []) initial = Some (Done (Obj 0), LeaseWorld)"
  by (simp add: lease_defs run_eval eval_nat_numeral)

lemma Lease_dispose: "dispose LeaseModule (Some RequestScope) LeaseWorld = (None, ReleasedWorld)"
  by (simp add: lease_defs dispose_def dispose_factory_def in_scope_def sample_defs fun_eq_iff)

lemma Lease_second:
  "run [Resume] (Await LeaseFactory []) ReleasedWorld =
     Some (Failed (Error ''lease expired'') [],
           ReleasedWorld\<lparr>calls := calls ReleasedWorld @
             [Initialized 40 [] (Inl (Error ''lease expired''))]\<rparr>)"
  by (simp add: lease_defs run_eval eval_nat_numeral)

text \<open>
  \<^bold>\<open>C6\<close> says that after \<^verbatim>\<open>dispose(S)\<close> a later \<^verbatim>\<open>get\<close> of a disposed singleton
  produces a fresh instance. The cache is cleared, so the later \<^verbatim>\<open>get\<close> calls the
  user's initializer again, and that call may throw. Here the initializer of \<open>Lease\<close>
  succeeds once only: after the first resolution and \<^verbatim>\<open>dispose(RequestScope)\<close>,
  \<^verbatim>\<open>get(Lease)\<close> is rejected and no instance is produced.
\<close>

theorem dispose_then_get_rejected_counterexample:
  "ServiceModule_from [Factory LeaseFactory] = Inr LeaseModule \<and>
   scope LeaseFactory = Some RequestScope \<and>
   get 1 LeaseModule Lease = Some (Await LeaseFactory []) \<and>
   run [Resume, Resume] (Await LeaseFactory []) initial = Some (Done (Obj 0), LeaseWorld) \<and>
   cached_instance LeaseFactory LeaseWorld = Obj 0 \<and>
   dispose LeaseModule (Some RequestScope) LeaseWorld = (None, ReleasedWorld) \<and>
   cached_instance LeaseFactory ReleasedWorld = Undefined \<and>
   run [Resume] (Await LeaseFactory []) ReleasedWorld =
     Some (Failed (Error ''lease expired'') [],
           ReleasedWorld\<lparr>calls := calls ReleasedWorld @
             [Initialized 40 [] (Inl (Error ''lease expired''))]\<rparr>) \<and>
   finished (Failed (Error ''lease expired'') [] :: nat task) \<and>
   settled (Failed (Error ''lease expired'') [] :: nat task) = Some (Inl (Error ''lease expired''))"
proof -
  have "scope LeaseFactory = Some RequestScope"
    "get 1 LeaseModule Lease = Some (Await LeaseFactory [])"
    "cached_instance LeaseFactory LeaseWorld = Obj 0"
    "cached_instance LeaseFactory ReleasedWorld = Undefined"
    by (simp_all add: lease_defs singleton_def isSuitable_def cached_instance_def)
  with LeaseModule_from Lease_first Lease_dispose Lease_second show ?thesis by simp
qed

text \<open>
  \<^bold>\<open>C6, amended.\<close> In a module built by \<^verbatim>\<open>from\<close> of distinct factory objects whose
  teardown functions return normally (the specification assumes that they do not raise),
  \<^verbatim>\<open>dispose(scope?)\<close> returns normally. It calls the user's teardown exactly on the
  selected factories that hold an instance, once each, in list order, with the instance
  held, and the user's state afterwards is what those teardowns make of it, in that
  order: selected are the factories whose scope is the given scope object, or all of
  them when no scope is given; a one-shot factory has no \<^verbatim>\<open>dispose\<close> and holds
  nothing. Afterwards every selected factory holds nothing and every other factory holds
  what it held. With an acyclic dependency graph a later \<^verbatim>\<open>get\<close> returns its promise;
  for the key of a selected singleton that promise is settled after at most \<open>work\<close>
  turns, whatever the schedule. When it is fulfilled, its value is an instance that a call
  of the singleton's initializer made after the disposal returned; when it is rejected,
  the error is one that a user's initializer threw after the disposal.
\<close>

theorem dispose_scoped:
  assumes "ServiceModule_from entries = Inr m"
    and "distinct (singleton_cells (factories m))"
    and "\<forall>f \<in> set (factories m). \<forall>v u. fst (user_dispose f v u) = None"
    and "dispose m sc w = (r, w')"
  shows "r = None \<and>
     calls w' = calls w @
       map (\<lambda>f. Disposed (symbol (provides f)) (cached_instance f w) None)
         (filter (\<lambda>f. selected sc f \<and> cached_instance f w \<noteq> Undefined) (factories m)) \<and>
     user w' =
       foldl (\<lambda>u f. snd (user_dispose f (cached_instance f w) u)) (user w)
         (filter (\<lambda>f. selected sc f \<and> cached_instance f w \<noteq> Undefined) (factories m)) \<and>
     (\<forall>f \<in> set (factories m).
        cached_instance f w' = (if selected sc f then Undefined else cached_instance f w)) \<and>
     (acyclic (dependency_graph m) \<longrightarrow> (\<forall>K. \<exists>n t. get n m K = Some t)) \<and>
     (\<forall>K f c n t sched t2 w2.
        find (isSuitable K) (factories m) = Some f \<and> lifetime f = Singleton c \<and> selected sc f \<and>
        get n m K = Some t \<and> run sched t w' = Some (t2, w2) \<longrightarrow>
          length sched \<le> work t \<and>
          (settled t2 = None \<longrightarrow> (\<exists>a r. act a t2 w2 = Some r)) \<and>
          (\<forall>v2. settled t2 = Some (Inr v2) \<longrightarrow>
             (\<exists>args new. calls w2 = calls w' @ new \<and>
                Initialized (symbol K) args (Inr v2) \<in> set new)) \<and>
          (\<forall>e. settled t2 = Some (Inl e) \<longrightarrow>
             (\<exists>k args new. calls w2 = calls w' @ new \<and>
                Initialized k args (Inl e) \<in> set new)))"
proof -
  let ?fs = "filter (selected sc) (factories m)"
  have sel: "(case sc of Some s \<Rightarrow> filter (in_scope s) (factories m) | None \<Rightarrow> factories m) = ?fs"
    by (cases sc) (auto simp: selected_def intro: filter_cong)
  from assms(4) have de: "dispose_each ?fs w = (r, w')"
    by (simp add: dispose_def sel)
  have d: "distinct (singleton_cells ?fs)"
    using assms(2) by (rule distinct_cells_filter)
  have nf: "\<forall>f \<in> set ?fs. \<forall>v u. fst (user_dispose f v u) = None" using assms(3) by simp
  from dispose_each_effect[OF d nf de]
  have 1: "r = None"
    and 2: "calls w' = calls w @ map (\<lambda>f. Disposed (symbol (provides f)) (cached_instance f w) None)
                            (filter (\<lambda>f. cached_instance f w \<noteq> Undefined) ?fs)"
    and u: "user w' = foldl (\<lambda>u f. snd (user_dispose f (cached_instance f w) u)) (user w)
                 (filter (\<lambda>f. cached_instance f w \<noteq> Undefined) ?fs)"
    and 3: "\<forall>c. instances w' c = (if c \<in> set (singleton_cells ?fs) then Undefined else instances w c)"
    by auto
  have calls': "calls w' = calls w @
       map (\<lambda>f. Disposed (symbol (provides f)) (cached_instance f w) None)
         (filter (\<lambda>f. selected sc f \<and> cached_instance f w \<noteq> Undefined) (factories m))"
    using 2 by (simp add: conj_commute)
  have user': "user w' =
       foldl (\<lambda>u f. snd (user_dispose f (cached_instance f w) u)) (user w)
         (filter (\<lambda>f. selected sc f \<and> cached_instance f w \<noteq> Undefined) (factories m))"
    using u by (simp add: conj_commute)
  have 4: "cached_instance f w' = (if selected sc f then Undefined else cached_instance f w)"
    if f: "f \<in> set (factories m)" for f
  proof (cases "lifetime f")
    case OneShot
    then show ?thesis by (simp add: cached_instance_def)
  next
    case (Singleton c)
    have "c \<in> set (singleton_cells ?fs) \<longleftrightarrow> selected sc f"
    proof
      assume "c \<in> set (singleton_cells ?fs)"
      then obtain g where g: "g \<in> set ?fs" "lifetime g = Singleton c"
        by (auto simp: singleton_cells_def split: lifetime.splits)
      then have "g \<in> set (factories m)" by simp
      from distinct_cells[OF assms(2) this f g(2) Singleton] g(1) show "selected sc f" by simp
    next
      assume "selected sc f"
      with f have "f \<in> set ?fs" by simp
      then show "c \<in> set (singleton_cells ?fs)" using Singleton by (rule cell_mem)
    qed
    with 3 Singleton show ?thesis by (simp add: cached_instance_def)
  qed
  have frame: "\<forall>f \<in> set (factories m).
        cached_instance f w' = (if selected sc f then Undefined else cached_instance f w)"
    using 4 by blast
  have ex: "acyclic (dependency_graph m) \<longrightarrow> (\<forall>K. \<exists>n t. get n m K = Some t)"
    using get_terminates_sym by blast
  have 5: "\<forall>K f c n t sched t2 w2.
        find (isSuitable K) (factories m) = Some f \<and> lifetime f = Singleton c \<and> selected sc f \<and>
        get n m K = Some t \<and> run sched t w' = Some (t2, w2) \<longrightarrow>
          length sched \<le> work t \<and>
          (settled t2 = None \<longrightarrow> (\<exists>a r. act a t2 w2 = Some r)) \<and>
          (\<forall>v2. settled t2 = Some (Inr v2) \<longrightarrow>
             (\<exists>args new. calls w2 = calls w' @ new \<and>
                Initialized (symbol K) args (Inr v2) \<in> set new)) \<and>
          (\<forall>e. settled t2 = Some (Inl e) \<longrightarrow>
             (\<exists>k args new. calls w2 = calls w' @ new \<and>
                Initialized k args (Inl e) \<in> set new))"
  proof (intro allI impI)
    fix K f c n t sched t2 w2
    assume a: "find (isSuitable K) (factories m) = Some f \<and> lifetime f = Singleton c \<and> selected sc f \<and>
        get n m K = Some t \<and> run sched t w' = Some (t2, w2)"
    then have f: "find (isSuitable K) (factories m) = Some f" and l: "lifetime f = Singleton c"
      and s: "selected sc f" and t: "get n m K = Some t"
      and r2: "run sched t w' = Some (t2, w2)" by auto
    from f have "f \<in> set (factories m)" by (auto simp: find_Some_iff)
    from 4[OF this] s l have empty: "instances w' c = Undefined" by (simp add: cached_instance_def)
    have b1: "length sched \<le> work t" using run_work[OF r2] by simp
    have b2: "settled t2 = None \<longrightarrow> (\<exists>a r. act a t2 w2 = Some r)" using progress by blast
    have b3: "\<forall>v2. settled t2 = Some (Inr v2) \<longrightarrow>
             (\<exists>args new. calls w2 = calls w' @ new \<and>
                Initialized (symbol K) args (Inr v2) \<in> set new)"
    proof (intro allI impI)
      fix v2 assume "settled t2 = Some (Inr v2)"
      then have "t2 = Done v2" by (cases t2) auto
      with r2 have "run sched t w' = Some (Done v2, w2)" by simp
      from fresh_resolution[OF assms(2) f l empty t this]
      show "\<exists>args new. calls w2 = calls w' @ new \<and> Initialized (symbol K) args (Inr v2) \<in> set new" .
    qed
    have b4: "\<forall>e. settled t2 = Some (Inl e) \<longrightarrow>
             (\<exists>k args new. calls w2 = calls w' @ new \<and>
                Initialized k args (Inl e) \<in> set new)"
      using rejection_thrown[OF from_valid[OF assms(1)] find_registered[OF f] t r2] by blast
    from b1 b2 b3 b4 show "length sched \<le> work t \<and>
          (settled t2 = None \<longrightarrow> (\<exists>a r. act a t2 w2 = Some r)) \<and>
          (\<forall>v2. settled t2 = Some (Inr v2) \<longrightarrow>
             (\<exists>args new. calls w2 = calls w' @ new \<and>
                Initialized (symbol K) args (Inr v2) \<in> set new)) \<and>
          (\<forall>e. settled t2 = Some (Inl e) \<longrightarrow>
             (\<exists>k args new. calls w2 = calls w' @ new \<and>
                Initialized k args (Inl e) \<in> set new))"
      by (intro conjI)
  qed
  from 1 calls' user' frame ex 5 show ?thesis by (intro conjI)
qed

theorem dispose_scoped_witness:
  "ServiceModule_from [Factory ConfigPerRequest, Factory SecondLogger, Factory DatabaseFactory,
     Factory RequestMetrics, Factory AppFactory] = Inr ScopedApplication \<and>
   scope_name RequestScope = scope_name SecondRequestScope \<and>
   dispose ScopedApplication (Some RequestScope) ServingWorld = (None, RequestEndWorld) \<and>
   cached_instance ConfigPerRequest ServingWorld = Obj 0 \<and>
   cached_instance RequestMetrics ServingWorld = Undefined \<and>
   cached_instance ConfigPerRequest RequestEndWorld = Undefined \<and>
   cached_instance SecondLogger RequestEndWorld = Obj 1 \<and>
   cached_instance DatabaseFactory RequestEndWorld = Obj 2 \<and>
   cached_instance AppFactory RequestEndWorld = Undefined \<and>
   calls RequestEndWorld = calls ServingWorld @ [Disposed 0 (Obj 0) None] \<and>
   user RequestEndWorld = snd (user_dispose ConfigPerRequest (Obj 0) (user ServingWorld)) \<and>
   user ServingWorld = 3 \<and> user RequestEndWorld = 103 \<and>
   get 1 ScopedApplication Config = Some (Await ConfigPerRequest []) \<and>
   run [Resume, Resume] (Await ConfigPerRequest []) RequestEndWorld =
     Some (Done (Obj 103),
           \<lparr>instances = (\<lambda>c. Undefined)(11 := Obj 1, 12 := Obj 2, 10 := Obj 103), user = 104,
            calls = [Disposed 0 (Obj 0) None, Initialized 0 [] (Inr (Obj 103))]\<rparr>) \<and>
   dispose ScopedApplication (Some SecondRequestScope) ServingWorld =
     (None, \<lparr>instances = (\<lambda>c. Undefined)(10 := Obj 0, 12 := Obj 2), user = 1003,
             calls = [Disposed 1 (Obj 1) None]\<rparr>) \<and>
   dispose ScopedApplication None ServingWorld =
     (None, \<lparr>instances = (\<lambda>c. Undefined), user = 11103,
             calls = [Disposed 0 (Obj 0) None, Disposed 1 (Obj 1) None, Disposed 3 (Obj 2) None]\<rparr>)"
proof -
  have d: "distinct (singleton_cells (factories ScopedApplication))"
    by (simp add: scoped_defs singleton_cells_def sample_defs)
  have nf: "\<forall>f \<in> set (factories ScopedApplication). \<forall>v u. fst (user_dispose f v u) = None"
    by (simp add: scoped_defs sample_defs)
  have sel: "selected (Some RequestScope) ConfigPerRequest"
    "\<not> selected (Some RequestScope) SecondLogger"
    "\<not> selected (Some RequestScope) DatabaseFactory"
    "selected (Some RequestScope) RequestMetrics"
    "\<not> selected (Some RequestScope) AppFactory"
    by (simp_all add: selected_def in_scope_def scoped_defs sample_defs)
  have ci: "cached_instance ConfigPerRequest ServingWorld = Obj 0"
    "cached_instance SecondLogger ServingWorld = Obj 1"
    "cached_instance DatabaseFactory ServingWorld = Obj 2"
    "cached_instance RequestMetrics ServingWorld = Undefined"
    "cached_instance AppFactory ServingWorld = Undefined"
    by (simp_all add: cached_instance_def scoped_defs sample_defs)
  have g: "get 1 ScopedApplication Config = Some (Await ConfigPerRequest [])"
    by (simp add: scoped_defs isSuitable_def sample_defs)
  have sy: "symbol (provides ConfigPerRequest) = 0" by (simp add: scoped_defs sample_defs)
  have nm: "scope_name RequestScope = scope_name SecondRequestScope" by (simp add: scoped_defs)
  have us: "user ServingWorld = 3" "user RequestEndWorld = 103" by (simp_all add: scoped_defs)
  from dispose_scoped[OF ScopedModule_from d nf Scoped_dispose]
  have "calls RequestEndWorld = calls ServingWorld @
       map (\<lambda>f. Disposed (symbol (provides f)) (cached_instance f ServingWorld) None)
         (filter (\<lambda>f. selected (Some RequestScope) f \<and> cached_instance f ServingWorld \<noteq> Undefined)
            (factories ScopedApplication))"
    and "user RequestEndWorld =
       foldl (\<lambda>u f. snd (user_dispose f (cached_instance f ServingWorld) u)) (user ServingWorld)
         (filter (\<lambda>f. selected (Some RequestScope) f \<and> cached_instance f ServingWorld \<noteq> Undefined)
            (factories ScopedApplication))"
    and "\<forall>f \<in> set (factories ScopedApplication).
        cached_instance f RequestEndWorld =
          (if selected (Some RequestScope) f then Undefined else cached_instance f ServingWorld)"
    by blast+
  then have "calls RequestEndWorld = calls ServingWorld @ [Disposed 0 (Obj 0) None]"
    and "user RequestEndWorld = snd (user_dispose ConfigPerRequest (Obj 0) (user ServingWorld))"
    and "cached_instance ConfigPerRequest RequestEndWorld = Undefined"
    and "cached_instance SecondLogger RequestEndWorld = Obj 1"
    and "cached_instance DatabaseFactory RequestEndWorld = Obj 2"
    and "cached_instance AppFactory RequestEndWorld = Undefined"
    using sel ci sy by (simp_all add: ScopedApplication_def)
  with ScopedModule_from nm Scoped_dispose Scoped_dispose_second Scoped_dispose_all Scoped_fresh
    g ci us
  show ?thesis by (intro conjI)
qed

end
